theory Spec2Isabelle
  imports Main "HOL-Library.Multiset"
begin

section \<open>JavaScript values held as cache payloads\<close>

text \<open>
  The payload of a cache entry has the TypeScript type \<open>any\<close>. The controller tests it for
  truthiness (\<open>cache && HMRUpdate\<close>, \<open>tmpCache || genCache()\<close>), so the model keeps the
  values that matter for that test apart. An object is a reference; two objects are the
  same instance exactly when their references are equal.
\<close>

datatype jsval = JUndefined | JNull | JBool bool | JNum int | JStr string | JObj nat

fun truthy :: "jsval \<Rightarrow> bool" where
  "truthy JUndefined = False"
| "truthy JNull = False"
| "truthy (JBool b) = b"
| "truthy (JNum n) = (n \<noteq> 0)"
| "truthy (JStr s) = (s \<noteq> [])"
| "truthy (JObj r) = True"

datatype error = TypeError

section \<open>Cache.ts: the cache entity\<close>

text \<open>\<open>type ValueType = [number, any]\<close>: the reference count and the payload.\<close>

type_synonym ValueType = "int \<times> jsval"

text \<open>\<open>keys: CacheKeyType[] | string\<close>.\<close>

datatype cache_keys = KeyArr "string list" | KeyStr string

definition SPLIT :: string where
  "SPLIT = ''%''"

text \<open>\<open>Array.prototype.join\<close> on an array of strings.\<close>

fun join :: "string list \<Rightarrow> string \<Rightarrow> string" where
  "join [] sep = []"
| "join [x] sep = x"
| "join (x # y # ys) sep = x @ sep @ join (y # ys) sep"

text \<open>
  The state the controller runs in: the entity's \<open>cache\<close> map, and \<open>user\<close>, everything
  of the calling side that the factory and the disposal callback can change. Both
  callbacks may read the entity (they see the whole state) but return only a new
  \<open>user\<close> part: they do not re-enter \<open>update\<close>.
\<close>

record 'u world =
  cache :: "string \<rightharpoonup> ValueType"
  user :: 'u

definition path_of :: "cache_keys \<Rightarrow> string" where
  "path_of ks = (case ks of KeyArr a \<Rightarrow> join a SPLIT | KeyStr s \<Rightarrow> s)"

text \<open>
  \<open>get\<close>: \<open>this.cache.get(path) || null\<close>. A stored value is an array, which is truthy, so
  the result is null (\<open>None\<close>) exactly when the key is missing.
\<close>

definition Entity_get :: "'u world \<Rightarrow> cache_keys \<Rightarrow> ValueType option" where
  "Entity_get w ks = cache w (path_of ks)"

text \<open>
  \<open>update\<close>: \<open>valueFn\<close> runs on the previous value first, in the state as it is then; the
  map is written (or the key deleted) only after it has returned.
\<close>

definition Entity_update ::
  "cache_keys \<Rightarrow> (ValueType option \<Rightarrow> 'u world \<Rightarrow> ValueType option \<times> 'u) \<Rightarrow> 'u world \<Rightarrow> 'u world" where
  "Entity_update ks valueFn w =
     (let path = path_of ks;
          prevValue = cache w path;
          (nextValue, u) = valueFn prevValue w
      in case nextValue of
           None \<Rightarrow> \<lparr>cache = (cache w)(path := None), user = u\<rparr>
         | Some v \<Rightarrow> \<lparr>cache = (cache w)(path \<mapsto> v), user = u\<rparr>)"

section \<open>useClientCache: the consumer lifecycle controller\<close>

text \<open>
  \<open>genCache: () => CacheType\<close> and the optional
  \<open>onCacheRemove?: (cache, fromHMR) => void\<close>.
\<close>

type_synonym 'u genCache = "'u world \<Rightarrow> jsval \<times> 'u"
type_synonym 'u onCacheRemove = "(jsval \<Rightarrow> bool \<Rightarrow> 'u world \<Rightarrow> 'u) option"

text \<open>\<open>onCacheRemove?.(cache, fromHMR)\<close>: nothing happens when no callback was given.\<close>

definition call_onCacheRemove :: "'u onCacheRemove \<Rightarrow> jsval \<Rightarrow> bool \<Rightarrow> 'u world \<Rightarrow> 'u" where
  "call_onCacheRemove onCacheRemove c fromHMR w =
     (case onCacheRemove of None \<Rightarrow> user w | Some f \<Rightarrow> f c fromHMR w)"

text \<open>\<open>const [times = 0, cache] = prevCache || []\<close>.\<close>

definition destructure :: "ValueType option \<Rightarrow> int \<times> jsval" where
  "destructure prevCache = (case prevCache of None \<Rightarrow> (0, JUndefined) | Some (t, c) \<Rightarrow> (t, c))"

text \<open>\<open>[prefix, ...cacheKeyArr.value].join('%')\<close>.\<close>

definition cacheKeyCompleteness :: "string \<Rightarrow> string list \<Rightarrow> string" where
  "cacheKeyCompleteness prefix cacheKeyArr = join (prefix # cacheKeyArr) ''%''"

text \<open>The function \<open>clearCache\<close> hands to \<open>update\<close>.\<close>

definition clearCache_fn :: "'u onCacheRemove \<Rightarrow> ValueType option \<Rightarrow> 'u world \<Rightarrow> ValueType option \<times> 'u" where
  "clearCache_fn onCacheRemove prevCache w =
     (let (times, c) = destructure prevCache;
          nextCount = times - 1
      in if nextCount = 0 then (None, call_onCacheRemove onCacheRemove c False w)
         else (Some (times - 1, c), user w))"

definition clearCache :: "'u onCacheRemove \<Rightarrow> string \<Rightarrow> 'u world \<Rightarrow> 'u world" where
  "clearCache onCacheRemove key w = Entity_update (KeyStr key) (clearCache_fn onCacheRemove) w"

text \<open>
  The function the watch callback hands to \<open>update\<close>. \<open>NODE_ENV\<close> is
  \<open>process.env.NODE_ENV\<close> and \<open>HMRUpdate\<close> the result of \<open>useHMR()\<close>; both come from outside
  the controller.
\<close>

definition acquire_fn ::
  "string \<Rightarrow> bool \<Rightarrow> 'u genCache \<Rightarrow> 'u onCacheRemove \<Rightarrow> ValueType option \<Rightarrow> 'u world \<Rightarrow> ValueType option \<times> 'u" where
  "acquire_fn NODE_ENV HMRUpdate genCache onCacheRemove prevCache w =
     (let (times, c) = destructure prevCache;
          (tmpCache, u1) =
            (if NODE_ENV \<noteq> ''production'' \<and> truthy c \<and> HMRUpdate
             then (JNull, call_onCacheRemove onCacheRemove c HMRUpdate w)
             else (c, user w));
          (mergedCache, u2) =
            (if truthy tmpCache then (tmpCache, u1) else genCache (w\<lparr>user := u1\<rparr>))
      in (Some (times + 1, mergedCache), u2))"

text \<open>
  The watch callback \<open>(newStr, oldStr) => ...\<close>. \<open>oldStr\<close> is undefined on the immediate first
  run; \<open>if (oldStr)\<close> also skips the empty string. The result is the payload written to
  \<open>cacheKey.value\<close>, read back with \<open>get(...)![1]\<close>.
\<close>

definition watch_callback ::
  "string \<Rightarrow> bool \<Rightarrow> 'u genCache \<Rightarrow> 'u onCacheRemove \<Rightarrow> string \<Rightarrow> string option \<Rightarrow> 'u world
     \<Rightarrow> error + jsval \<times> 'u world" where
  "watch_callback NODE_ENV HMRUpdate genCache onCacheRemove newStr oldStr w =
     (let w1 = (case oldStr of
                  None \<Rightarrow> w
                | Some s \<Rightarrow> if s \<noteq> [] then clearCache onCacheRemove s w else w);
          w2 = Entity_update (KeyStr newStr) (acquire_fn NODE_ENV HMRUpdate genCache onCacheRemove) w1
      in case Entity_get w2 (KeyStr newStr) of
           None \<Rightarrow> Inl TypeError
         | Some (t, c) \<Rightarrow> Inr (c, w2))"

text \<open>\<open>onBeforeUnmount\<close>: release the current key.\<close>

definition onBeforeUnmount :: "'u onCacheRemove \<Rightarrow> string \<Rightarrow> 'u world \<Rightarrow> 'u world" where
  "onBeforeUnmount onCacheRemove key w = clearCache onCacheRemove key w"

text \<open>
  One acquisition of \<open>key\<close> by a caller with no previous key (the immediate run of the
  watch callback), and \<open>n\<close> of them in a row, as \<open>n\<close> callers with the same key make them.
\<close>

definition acquire :: "string \<Rightarrow> bool \<Rightarrow> 'u genCache \<Rightarrow> 'u onCacheRemove \<Rightarrow> string \<Rightarrow> 'u world \<Rightarrow> 'u world" where
  "acquire NODE_ENV HMRUpdate genCache onCacheRemove key w =
     (case watch_callback NODE_ENV HMRUpdate genCache onCacheRemove key None w of
        Inl e \<Rightarrow> w
      | Inr (c, w') \<Rightarrow> w')"

fun acquire_n :: "nat \<Rightarrow> string \<Rightarrow> bool \<Rightarrow> 'u genCache \<Rightarrow> 'u onCacheRemove \<Rightarrow> string \<Rightarrow> 'u world \<Rightarrow> 'u world" where
  "acquire_n 0 NODE_ENV HMRUpdate genCache onCacheRemove key w = w"
| "acquire_n (Suc n) NODE_ENV HMRUpdate genCache onCacheRemove key w =
     acquire_n n NODE_ENV HMRUpdate genCache onCacheRemove key
       (acquire NODE_ENV HMRUpdate genCache onCacheRemove key w)"

fun release_n :: "nat \<Rightarrow> 'u onCacheRemove \<Rightarrow> string \<Rightarrow> 'u world \<Rightarrow> 'u world" where
  "release_n 0 onCacheRemove key w = w"
| "release_n (Suc n) onCacheRemove key w =
     release_n n onCacheRemove key (onBeforeUnmount onCacheRemove key w)"

text \<open>
  Callbacks that record their own invocations, for running the controller on concrete
  inputs. The factory returns a new object at every call (its reference is the length of
  the record so far); the disposal callback built for \<open>key\<close> also records what \<open>get\<close> on
  that key returns at the moment it runs.
\<close>

datatype event = Factory jsval | Disposal jsval bool "ValueType option"

definition recording_genCache :: "event list genCache" where
  "recording_genCache w = (JObj (length (user w)), user w @ [Factory (JObj (length (user w)))])"

definition recording_onCacheRemove :: "string \<Rightarrow> event list onCacheRemove" where
  "recording_onCacheRemove key =
     Some (\<lambda>c fromHMR w. user w @ [Disposal c fromHMR (Entity_get w (KeyStr key))])"

text \<open>A factory that hands out one and the same object at every call.\<close>

definition constant_genCache :: "event list genCache" where
  "constant_genCache w = (JObj 7, user w @ [Factory (JObj 7)])"

text \<open>A factory whose payload is the number 0, which is falsy.\<close>

definition zero_genCache :: "event list genCache" where
  "zero_genCache w = (JNum 0, user w @ [Factory (JNum 0)])"

definition empty_world :: "event list world" where
  "empty_world = \<lparr>cache = Map.empty, user = []\<rparr>"

section \<open>ThemeCache: the trie of derivative sequences\<close>

text \<open>
  \<open>type ThemeCacheMap = Map<DerivativeFunc, {map?: ThemeCacheMap; value?: [Theme, number]}>\<close>.
  A derivative function is a key of type \<open>'k\<close>, compared by identity; a theme is a value of
  type \<open>'v\<close>. A JavaScript \<open>Map\<close> keeps its entries in insertion order, so it is a list of
  pairs with unique keys. The access counter is a JavaScript number that only ever
  counts up from 0 by 1: a natural number (exact below \<open>2^53\<close>).
\<close>

datatype ('k, 'v) node =
  Node (node_map: "('k \<times> ('k, 'v) node) list option") (node_value: "('v \<times> nat) option")

type_synonym ('k, 'v) ThemeCacheMap = "('k \<times> ('k, 'v) node) list"

text \<open>\<open>Map.prototype.get\<close>, \<open>set\<close> (in place for a key that is there, at the end otherwise)
  and \<open>delete\<close>.\<close>

fun Map_get :: "('k \<times> 'a) list \<Rightarrow> 'k \<Rightarrow> 'a option" where
  "Map_get [] k = None"
| "Map_get ((k', a) # m) k = (if k' = k then Some a else Map_get m k)"

fun Map_set :: "'k \<Rightarrow> 'a \<Rightarrow> ('k \<times> 'a) list \<Rightarrow> ('k \<times> 'a) list" where
  "Map_set k a [] = [(k, a)]"
| "Map_set k a ((k', a') # m) = (if k' = k then (k, a) # m else (k', a') # Map_set k a m)"

fun Map_delete :: "'k \<Rightarrow> ('k \<times> 'a) list \<Rightarrow> ('k \<times> 'a) list" where
  "Map_delete k [] = []"
| "Map_delete k ((k', a') # m) = (if k' = k then m else (k', a') # Map_delete k m)"

record ('k, 'v) ThemeCache =
  tcache :: "('k, 'v) ThemeCacheMap"
  keys :: "'k list list"
  cacheCallTimes :: nat

text \<open>The constructor.\<close>

definition new_ThemeCache :: "('k, 'v) ThemeCache" where
  "new_ThemeCache = \<lparr>tcache = [], keys = [], cacheCallTimes = 0\<rparr>"

text \<open>What a method call leaves behind: it returns a value, or throws; either way the
  instance is in some state afterwards.\<close>

datatype ('a, 's) outcome = Throws error 's | Returns 'a 's

fun state_of :: "('a, 's) outcome \<Rightarrow> 's" where
  "state_of (Throws e s) = s"
| "state_of (Returns a s) = s"

fun sameDerivativeOption :: "'k list \<Rightarrow> 'k list \<Rightarrow> bool" where
  "sameDerivativeOption left right =
     (if length left \<noteq> length right then False
      else list_all (\<lambda>(l, r). l = r) (zip left right))"

definition ThemeCache_size :: "('k, 'v) ThemeCache \<Rightarrow> nat" where
  "ThemeCache_size t = length (keys t)"

text \<open>
  The walk of \<open>internalGet\<close>: it starts at \<open>{ map: this.cache }\<close> and takes one step per
  element with \<open>cache?.map?.get(derivative)\<close>.
\<close>

definition walk_step :: "('k, 'v) node option \<Rightarrow> 'k \<Rightarrow> ('k, 'v) node option" where
  "walk_step c derivative =
     (case c of
        None \<Rightarrow> None
      | Some n \<Rightarrow> (case node_map n of None \<Rightarrow> None | Some m \<Rightarrow> Map_get m derivative))"

definition walk :: "('k, 'v) ThemeCacheMap \<Rightarrow> 'k list \<Rightarrow> ('k, 'v) node option" where
  "walk root derivativeOption = foldl walk_step (Some (Node (Some root) None)) derivativeOption"

text \<open>
  \<open>cache.value[1] = stamp\<close> on the node the walk ends at. The tuple is changed in place;
  in the trie as a value, that is the same trie with the stamp of that one leaf replaced.
\<close>

fun restamp :: "('k, 'v) ThemeCacheMap \<Rightarrow> 'k list \<Rightarrow> nat \<Rightarrow> ('k, 'v) ThemeCacheMap" where
  "restamp m [] stamp = m"
| "restamp m [d] stamp =
     (case Map_get m d of
        Some (Node mp (Some (v, old))) \<Rightarrow> Map_set d (Node mp (Some (v, stamp))) m
      | _ \<Rightarrow> m)"
| "restamp m (d # ds) stamp =
     (case Map_get m d of
        Some (Node (Some sub) val) \<Rightarrow> Map_set d (Node (Some (restamp sub ds stamp)) val) m
      | _ \<Rightarrow> m)"

definition internalGet ::
  "'k list \<Rightarrow> bool \<Rightarrow> ('k, 'v) ThemeCache \<Rightarrow> ('v \<times> nat) option \<times> ('k, 'v) ThemeCache" where
  "internalGet derivativeOption updateCallTimes t =
     (case walk (tcache t) derivativeOption of
        None \<Rightarrow> (None, t)
      | Some n \<Rightarrow>
          (case node_value n of
             None \<Rightarrow> (None, t)
           | Some (v, stamp) \<Rightarrow>
               if updateCallTimes
               then (Some (v, cacheCallTimes t),
                     t\<lparr>tcache := restamp (tcache t) derivativeOption (cacheCallTimes t),
                       cacheCallTimes := cacheCallTimes t + 1\<rparr>)
               else (Some (v, stamp), t)))"

definition ThemeCache_get :: "'k list \<Rightarrow> ('k, 'v) ThemeCache \<Rightarrow> 'v option \<times> ('k, 'v) ThemeCache" where
  "ThemeCache_get derivativeOption t =
     (case internalGet derivativeOption True t of (r, t') \<Rightarrow> (map_option fst r, t'))"

definition ThemeCache_has :: "'k list \<Rightarrow> ('k, 'v) ThemeCache \<Rightarrow> bool \<times> ('k, 'v) ThemeCache" where
  "ThemeCache_has derivativeOption t =
     (case internalGet derivativeOption False t of (r, t') \<Rightarrow> (r \<noteq> None, t'))"

text \<open>
  \<open>deleteByPath\<close>. A lookup that finds nothing makes the next property access throw; every
  such access comes before the first change to the map it is about.
\<close>

fun deleteByPath ::
  "('k, 'v) ThemeCacheMap \<Rightarrow> 'k list \<Rightarrow> error + ('k, 'v) ThemeCacheMap \<times> 'v option" where
  "deleteByPath currentCache [] = Inl TypeError"
| "deleteByPath currentCache [d] =
     (case Map_get currentCache d of
        None \<Rightarrow> Inl TypeError
      | Some c \<Rightarrow>
          (case node_map c of
             None \<Rightarrow> Inr (Map_delete d currentCache, map_option fst (node_value c))
           | Some mp \<Rightarrow> Inr (Map_set d (Node (Some mp) None) currentCache, map_option fst (node_value c))))"
| "deleteByPath currentCache (d # ds) =
     (case Map_get currentCache d of
        None \<Rightarrow> Inl TypeError
      | Some c \<Rightarrow>
          (case node_map c of
             None \<Rightarrow> Inl TypeError
           | Some mp \<Rightarrow>
               (case deleteByPath mp ds of
                  Inl e \<Rightarrow> Inl e
                | Inr (mp', result) \<Rightarrow>
                    if mp' = [] \<and> node_value c = None
                    then Inr (Map_delete d currentCache, result)
                    else Inr (Map_set d (Node (Some mp') (node_value c)) currentCache, result))))"

definition ThemeCache_delete ::
  "'k list \<Rightarrow> ('k, 'v) ThemeCache \<Rightarrow> ('v option, ('k, 'v) ThemeCache) outcome" where
  "ThemeCache_delete derivativeOption t =
     (if fst (ThemeCache_has derivativeOption t)
      then (let t1 = t\<lparr>keys := filter (\<lambda>item. \<not> sameDerivativeOption item derivativeOption) (keys t)\<rparr>
            in case deleteByPath (tcache t1) derivativeOption of
                 Inl e \<Rightarrow> Throws e t1
               | Inr (m, result) \<Rightarrow> Returns result (t1\<lparr>tcache := m\<rparr>))
      else Returns None t)"

text \<open>
  The \<open>reduce\<close> of \<open>set\<close> over the registry, from \<open>[this.keys[0], this.cacheCallTimes]\<close>:
  \<open>this.internalGet(key)![1]\<close> throws for a key with no leaf. \<open>this.keys[0]\<close> is undefined
  (\<open>None\<close>) for an empty registry.
\<close>

fun eviction_scan ::
  "('k, 'v) ThemeCache \<Rightarrow> 'k list list \<Rightarrow> 'k list option \<times> nat \<Rightarrow> error + 'k list option \<times> nat" where
  "eviction_scan t [] result = Inr result"
| "eviction_scan t (key # rest) (targetKey, callTimes) =
     (case fst (internalGet key False t) of
        None \<Rightarrow> Inl TypeError
      | Some (v, stamp) \<Rightarrow>
          eviction_scan t rest (if stamp < callTimes then (Some key, stamp) else (targetKey, callTimes)))"

text \<open>The eviction of \<open>set\<close>: the scan, then \<open>this.delete(targetKey)\<close>; \<open>delete(undefined)\<close>
  throws in \<open>internalGet\<close> at \<open>derivativeOption.forEach\<close>.\<close>

definition evict :: "('k, 'v) ThemeCache \<Rightarrow> (unit, ('k, 'v) ThemeCache) outcome" where
  "evict t =
     (case eviction_scan t (keys t) (case keys t of [] \<Rightarrow> None | k0 # ks \<Rightarrow> Some k0, cacheCallTimes t) of
        Inl e \<Rightarrow> Throws e t
      | Inr (None, callTimes) \<Rightarrow> Throws TypeError t
      | Inr (Some targetKey, callTimes) \<Rightarrow>
          (case ThemeCache_delete targetKey t of
             Throws e t' \<Rightarrow> Throws e t'
           | Returns r t' \<Rightarrow> Returns () t'))"

text \<open>The second half of \<open>set\<close>: the path is created where it is missing, and the node at
  its end is replaced by \<open>{ value: [value, stamp] }\<close>.\<close>

fun write_path :: "('k, 'v) ThemeCacheMap \<Rightarrow> 'k list \<Rightarrow> 'v \<Rightarrow> nat \<Rightarrow> ('k, 'v) ThemeCacheMap" where
  "write_path m [] v stamp = m"
| "write_path m [d] v stamp = Map_set d (Node None (Some (v, stamp))) m"
| "write_path m (d # ds) v stamp =
     (case Map_get m d of
        None \<Rightarrow> Map_set d (Node (Some (write_path [] ds v stamp)) None) m
      | Some c \<Rightarrow>
          (case node_map c of
             None \<Rightarrow> Map_set d (Node (Some (write_path [] ds v stamp)) (node_value c)) m
           | Some mp \<Rightarrow> Map_set d (Node (Some (write_path mp ds v stamp)) (node_value c)) m))"

text \<open>\<open>set\<close>. \<open>MAX_CACHE_SIZE\<close> and \<open>MAX_CACHE_OFFSET\<close> are static fields of the class that a
  caller may assign.\<close>

definition ThemeCache_set ::
  "int \<Rightarrow> int \<Rightarrow> 'k list \<Rightarrow> 'v \<Rightarrow> ('k, 'v) ThemeCache \<Rightarrow> (unit, ('k, 'v) ThemeCache) outcome" where
  "ThemeCache_set MAX_CACHE_SIZE MAX_CACHE_OFFSET derivativeOption v t =
     (case (if \<not> fst (ThemeCache_has derivativeOption t)
            then (case (if int (ThemeCache_size t) + 1 > MAX_CACHE_SIZE + MAX_CACHE_OFFSET
                        then evict t else Returns () t) of
                    Throws e t' \<Rightarrow> Throws e t'
                  | Returns u t1 \<Rightarrow> Returns () (t1\<lparr>keys := keys t1 @ [derivativeOption]\<rparr>))
            else Returns () t) of
        Throws e t' \<Rightarrow> Throws e t'
      | Returns u t2 \<Rightarrow>
          Returns ()
            (t2\<lparr>tcache := write_path (tcache t2) derivativeOption v (cacheCallTimes t2),
                cacheCallTimes := (if derivativeOption = [] then cacheCallTimes t2
                                   else cacheCallTimes t2 + 1)\<rparr>))"

text \<open>A caller's operations on one instance, and a run of them. A call that throws
  leaves the instance as it was at the throw; the next call goes on from there.\<close>

datatype ('k, 'v) operation =
  Has "'k list" | Get "'k list" | Set "'k list" 'v | Delete "'k list"

fun apply_operation ::
  "int \<Rightarrow> int \<Rightarrow> ('k, 'v) operation \<Rightarrow> ('k, 'v) ThemeCache \<Rightarrow> ('k, 'v) ThemeCache" where
  "apply_operation S F (Has ds) t = snd (ThemeCache_has ds t)"
| "apply_operation S F (Get ds) t = snd (ThemeCache_get ds t)"
| "apply_operation S F (Set ds v) t = state_of (ThemeCache_set S F ds v t)"
| "apply_operation S F (Delete ds) t = state_of (ThemeCache_delete ds t)"

fun run :: "int \<Rightarrow> int \<Rightarrow> ('k, 'v) operation list \<Rightarrow> ('k, 'v) ThemeCache \<Rightarrow> ('k, 'v) ThemeCache" where
  "run S F [] t = t"
| "run S F (x # xs) t = run S F xs (apply_operation S F x t)"

text \<open>What the claims count and compare: the leaves of a trie, its stamps, and whether
  some node has neither a child nor a leaf.\<close>

fun leaves :: "('k, 'v) node \<Rightarrow> nat" where
  "leaves (Node mp val) =
     (case val of None \<Rightarrow> 0 | Some x \<Rightarrow> 1)
     + (case mp of None \<Rightarrow> 0 | Some m \<Rightarrow> sum_list (map (\<lambda>p. leaves (snd p)) m))"

definition leaves_of :: "('k, 'v) ThemeCacheMap \<Rightarrow> nat" where
  "leaves_of m = sum_list (map (\<lambda>p. leaves (snd p)) m)"

fun stamps :: "('k, 'v) node \<Rightarrow> nat list" where
  "stamps (Node mp val) =
     (case val of None \<Rightarrow> [] | Some (v, stamp) \<Rightarrow> [stamp])
     @ (case mp of None \<Rightarrow> [] | Some m \<Rightarrow> concat (map (\<lambda>p. stamps (snd p)) m))"

definition stamps_of :: "('k, 'v) ThemeCacheMap \<Rightarrow> nat list" where
  "stamps_of m = concat (map (\<lambda>p. stamps (snd p)) m)"

fun has_empty_node :: "('k, 'v) node \<Rightarrow> bool" where
  "has_empty_node (Node mp val) =
     ((val = None \<and> (mp = None \<or> mp = Some []))
      \<or> (case mp of None \<Rightarrow> False | Some m \<Rightarrow> list_ex (\<lambda>p. has_empty_node (snd p)) m))"

definition has_empty_node_in :: "('k, 'v) ThemeCacheMap \<Rightarrow> bool" where
  "has_empty_node_in m = list_ex (\<lambda>p. has_empty_node (snd p)) m"

text \<open>The stamps in the trie are a sub-multiset of \<open>{0, ..., cacheCallTimes - 1}\<close>: each
  is below the counter, and no two leaves carry the same one.\<close>

definition stamps_inv :: "('k, 'v) ThemeCache \<Rightarrow> bool" where
  "stamps_inv t = (mset (stamps_of (tcache t)) \<subseteq># mset_set {0..<cacheCallTimes t})"

text \<open>The stamp on the leaf of a sequence, if it has one.\<close>

definition leaf_stamp :: "('k, 'v) ThemeCache \<Rightarrow> 'k list \<Rightarrow> nat option" where
  "leaf_stamp t k = map_option snd (fst (internalGet k False t))"

section \<open>The cache entity and the controller: lemmas\<close>

lemma clearCache_present:
  "cache w key = Some (t, c) \<Longrightarrow>
   clearCache r key w =
     (if t = 1 then \<lparr>cache = (cache w)(key := None), user = call_onCacheRemove r c False w\<rparr>
      else \<lparr>cache = (cache w)(key \<mapsto> (t - 1, c)), user = user w\<rparr>)"
  by (simp add: clearCache_def Entity_update_def clearCache_fn_def destructure_def path_of_def)

lemma clearCache_missing:
  "cache w key = None \<Longrightarrow>
   clearCache r key w = \<lparr>cache = (cache w)(key \<mapsto> (- 1, JUndefined)), user = user w\<rparr>"
  by (simp add: clearCache_def Entity_update_def clearCache_fn_def destructure_def path_of_def)

lemma acquire_world:
  "acquire NODE_ENV HMRUpdate g r key w =
     Entity_update (KeyStr key) (acquire_fn NODE_ENV HMRUpdate g r) w"
  by (simp add: acquire_def watch_callback_def Entity_update_def Entity_get_def path_of_def
      acquire_fn_def Let_def split: prod.splits option.splits)

lemma acquire_missing:
  "cache w key = None \<Longrightarrow>
   acquire NODE_ENV HMRUpdate g r key w =
     \<lparr>cache = (cache w)(key \<mapsto> (1, fst (g w))), user = snd (g w)\<rparr>"
  by (simp add: acquire_world Entity_update_def acquire_fn_def destructure_def path_of_def split: prod.splits)

lemma acquire_present_plain:
  "cache w key = Some (t, c) \<Longrightarrow> truthy c \<Longrightarrow> NODE_ENV = ''production'' \<or> \<not> HMRUpdate \<Longrightarrow>
   acquire NODE_ENV HMRUpdate g r key w = \<lparr>cache = (cache w)(key \<mapsto> (t + 1, c)), user = user w\<rparr>"
  by (auto simp add: acquire_world Entity_update_def acquire_fn_def destructure_def path_of_def split: prod.splits)

lemma acquire_present_falsy:
  "cache w key = Some (t, c) \<Longrightarrow> \<not> truthy c \<Longrightarrow>
   acquire NODE_ENV HMRUpdate g r key w = \<lparr>cache = (cache w)(key \<mapsto> (t + 1, fst (g w))), user = snd (g w)\<rparr>"
  by (auto simp add: acquire_world Entity_update_def acquire_fn_def destructure_def path_of_def split: prod.splits)

lemma acquire_present_hmr:
  "cache w key = Some (t, c) \<Longrightarrow> truthy c \<Longrightarrow> NODE_ENV \<noteq> ''production'' \<Longrightarrow> HMRUpdate \<Longrightarrow>
   acquire NODE_ENV HMRUpdate g r key w =
     \<lparr>cache = (cache w)(key \<mapsto> (t + 1, fst (g (w\<lparr>user := call_onCacheRemove r c True w\<rparr>)))),
      user = snd (g (w\<lparr>user := call_onCacheRemove r c True w\<rparr>))\<rparr>"
  by (auto simp add: acquire_world Entity_update_def acquire_fn_def destructure_def path_of_def split: prod.splits)


lemma acquire_frame:
  "k' \<noteq> key \<Longrightarrow> cache (acquire NODE_ENV HMRUpdate g r key w) k' = cache w k'"
  by (simp add: acquire_world Entity_update_def path_of_def split: prod.splits option.splits)

lemma acquire_no_hmr_ignores_callback:
  "NODE_ENV = ''production'' \<or> \<not> HMRUpdate \<Longrightarrow>
   acquire NODE_ENV HMRUpdate g r key w = acquire NODE_ENV HMRUpdate g None key w"
  by (auto simp add: acquire_world Entity_update_def acquire_fn_def)

lemma acquire_n_no_hmr_ignores_callback:
  "NODE_ENV = ''production'' \<or> \<not> HMRUpdate \<Longrightarrow>
   acquire_n n NODE_ENV HMRUpdate g r key w = acquire_n n NODE_ENV HMRUpdate g None key w"
proof (induction n arbitrary: w)
  case 0
  show ?case by simp
next
  case (Suc n)
  from Suc.prems have "acquire NODE_ENV HMRUpdate g r key w = acquire NODE_ENV HMRUpdate g None key w"
    by (rule acquire_no_hmr_ignores_callback)
  with Suc.IH [OF Suc.prems] show ?case by simp
qed

lemma acquire_count:
  "\<exists>p. cache (acquire NODE_ENV HMRUpdate g r key w) =
         (cache w)(key \<mapsto> (fst (destructure (cache w key)) + 1, p))"
  by (auto simp add: acquire_world Entity_update_def acquire_fn_def path_of_def Let_def
      split: prod.splits)

lemma acquire_n_count:
  "0 < n \<Longrightarrow>
   \<exists>p. cache (acquire_n n NODE_ENV HMRUpdate g r key w) =
         (cache w)(key \<mapsto> (fst (destructure (cache w key)) + int n, p))"
proof (induction n arbitrary: w)
  case 0
  then show ?case by simp
next
  case (Suc n)
  let ?w1 = "acquire NODE_ENV HMRUpdate g r key w"
  obtain p1 where p1: "cache ?w1 = (cache w)(key \<mapsto> (fst (destructure (cache w key)) + 1, p1))"
    using acquire_count by blast
  show ?case
  proof (cases n)
    case 0
    with p1 show ?thesis by auto
  next
    case (Suc m)
    then have "0 < n" by simp
    from Suc.IH [OF this, of ?w1] obtain p where
      "cache (acquire_n n NODE_ENV HMRUpdate g r key ?w1) =
         (cache ?w1)(key \<mapsto> (fst (destructure (cache ?w1 key)) + int n, p))" by blast
    moreover have "fst (destructure (cache ?w1 key)) = fst (destructure (cache w key)) + 1"
      by (simp add: p1 destructure_def)
    ultimately have "cache (acquire_n n NODE_ENV HMRUpdate g r key ?w1) =
         (cache w)(key \<mapsto> (fst (destructure (cache w key)) + int (Suc n), p))"
      by (simp add: p1 add.assoc)
    then show ?thesis by auto
  qed
qed

lemma release_n_below:
  "cache w key = Some (t, p) \<Longrightarrow> int j < t \<Longrightarrow>
   release_n j r key w = \<lparr>cache = (cache w)(key \<mapsto> (t - int j, p)), user = user w\<rparr>"
proof (induction j arbitrary: w t)
  case 0
  then have "(cache w)(key \<mapsto> (t, p)) = cache w" by (simp add: map_upd_triv)
  then show ?case by simp
next
  case (Suc j)
  let ?w1 = "\<lparr>cache = (cache w)(key \<mapsto> (t - 1, p)), user = user w\<rparr>"
  from Suc.prems have "onBeforeUnmount r key w = ?w1"
    by (simp add: onBeforeUnmount_def clearCache_present)
  moreover have "release_n j r key ?w1 =
      \<lparr>cache = (cache ?w1)(key \<mapsto> (t - 1 - int j, p)), user = user ?w1\<rparr>"
  proof (rule Suc.IH)
    show "cache ?w1 key = Some (t - 1, p)" by simp
    show "int j < t - 1" using Suc.prems by simp
  qed
  moreover have "t - 1 - int j = t - int (Suc j)" by simp
  ultimately show ?case by (auto simp del: of_nat_Suc simp add: fun_upd_def)
qed

lemma release_n_snoc:
  "release_n (Suc j) r key w = onBeforeUnmount r key (release_n j r key w)"
  by (induction j arbitrary: w) simp_all

lemma release_n_all:
  assumes "cache w key = Some (int n, p)" "0 < n"
  shows "release_n n r key w =
     \<lparr>cache = (cache w)(key := None),
      user = call_onCacheRemove r p False \<lparr>cache = (cache w)(key \<mapsto> (1, p)), user = user w\<rparr>\<rparr>"
proof -
  from assms obtain j where n: "n = Suc j" by (cases n) auto
  have "release_n j r key w = \<lparr>cache = (cache w)(key \<mapsto> (int n - int j, p)), user = user w\<rparr>"
    using assms n by (intro release_n_below) auto
  then have "release_n j r key w = \<lparr>cache = (cache w)(key \<mapsto> (1, p)), user = user w\<rparr>"
    using n by simp
  then show ?thesis
    unfolding n release_n_snoc
    by (simp add: onBeforeUnmount_def clearCache_present)
qed

lemma watch_callback_missing:
  "cache w key = None \<Longrightarrow>
   watch_callback NODE_ENV HMRUpdate g r key None w =
     Inr (fst (g w), \<lparr>cache = (cache w)(key \<mapsto> (1, fst (g w))), user = snd (g w)\<rparr>)"
  by (simp add: watch_callback_def Entity_update_def Entity_get_def acquire_fn_def destructure_def
      path_of_def split: prod.splits)

lemma watch_callback_present_plain:
  "cache w key = Some (t, c) \<Longrightarrow> truthy c \<Longrightarrow> NODE_ENV = ''production'' \<or> \<not> HMRUpdate \<Longrightarrow>
   watch_callback NODE_ENV HMRUpdate g r key None w =
     Inr (c, \<lparr>cache = (cache w)(key \<mapsto> (t + 1, c)), user = user w\<rparr>)"
  by (auto simp add: watch_callback_def Entity_update_def Entity_get_def acquire_fn_def destructure_def
      path_of_def split: prod.splits)

lemma watch_callback_present_falsy:
  "cache w key = Some (t, c) \<Longrightarrow> \<not> truthy c \<Longrightarrow>
   watch_callback NODE_ENV HMRUpdate g r key None w =
     Inr (fst (g w), \<lparr>cache = (cache w)(key \<mapsto> (t + 1, fst (g w))), user = snd (g w)\<rparr>)"
  by (auto simp add: watch_callback_def Entity_update_def Entity_get_def acquire_fn_def destructure_def
      path_of_def split: prod.splits)

lemma watch_callback_present_hmr:
  "cache w key = Some (t, c) \<Longrightarrow> truthy c \<Longrightarrow> NODE_ENV \<noteq> ''production'' \<Longrightarrow> HMRUpdate \<Longrightarrow>
   watch_callback NODE_ENV HMRUpdate g r key None w =
     Inr (fst (g (w\<lparr>user := call_onCacheRemove r c True w\<rparr>)),
          \<lparr>cache = (cache w)(key \<mapsto> (t + 1, fst (g (w\<lparr>user := call_onCacheRemove r c True w\<rparr>)))),
           user = snd (g (w\<lparr>user := call_onCacheRemove r c True w\<rparr>))\<rparr>)"
  by (auto simp add: watch_callback_def Entity_update_def Entity_get_def acquire_fn_def destructure_def
      path_of_def split: prod.splits)

section \<open>ThemeCache: lemmas\<close>

lemma Map_get_Map_set_same: "Map_get (Map_set d n m) d = Some n"
  by (induction m) auto

lemma Map_get_Map_set_other: "d' \<noteq> d \<Longrightarrow> Map_get (Map_set d n m) d' = Map_get m d'"
  by (induction m) auto

lemma stamps_Node [simp]:
  "stamps (Node mp val) =
     (case val of None \<Rightarrow> [] | Some (v, stamp) \<Rightarrow> [stamp])
     @ (case mp of None \<Rightarrow> [] | Some m \<Rightarrow> stamps_of m)"
  by (simp add: stamps_of_def split: option.splits)

declare stamps.simps [simp del]

lemma mset_stamps_node:
  "mset (stamps n) =
     (case node_value n of None \<Rightarrow> {#} | Some (v, stamp) \<Rightarrow> {#stamp#})
     + (case node_map n of None \<Rightarrow> {#} | Some m \<Rightarrow> mset (stamps_of m))"
  by (cases n) (simp split: option.splits)

lemma stamps_of_Nil: "stamps_of [] = []"
  by (simp add: stamps_of_def)

lemma stamps_of_Cons: "stamps_of ((k, n) # m) = stamps n @ stamps_of m"
  by (simp add: stamps_of_def)

lemma mset_stamps_Map_set:
  "mset (stamps_of (Map_set d n m))
     + (case Map_get m d of None \<Rightarrow> {#} | Some old \<Rightarrow> mset (stamps old))
   = mset (stamps_of m) + mset (stamps n)"
  by (induction m) (auto simp add: stamps_of_Nil stamps_of_Cons)

lemma mset_stamps_Map_delete:
  "mset (stamps_of (Map_delete d m))
     + (case Map_get m d of None \<Rightarrow> {#} | Some old \<Rightarrow> mset (stamps old))
   = mset (stamps_of m)"
  by (induction m) (auto simp add: stamps_of_Nil stamps_of_Cons)

lemma Map_set_stamps_le:
  assumes "mset (stamps n) \<subseteq># (case Map_get m d of None \<Rightarrow> {#} | Some old \<Rightarrow> mset (stamps old)) + X"
  shows "mset (stamps_of (Map_set d n m)) \<subseteq># mset (stamps_of m) + X"
proof -
  let ?old = "case Map_get m d of None \<Rightarrow> {#} | Some old \<Rightarrow> mset (stamps old)"
  have "mset (stamps_of (Map_set d n m)) + ?old = mset (stamps_of m) + mset (stamps n)"
    by (rule mset_stamps_Map_set)
  also have "\<dots> \<subseteq># mset (stamps_of m) + (?old + X)"
    using assms by (simp add: subset_mset.add_left_mono)
  finally have "mset (stamps_of (Map_set d n m)) + ?old \<subseteq># (mset (stamps_of m) + X) + ?old"
    by (simp add: ac_simps)
  then show ?thesis by simp
qed

lemma Map_delete_stamps_le: "mset (stamps_of (Map_delete d m)) \<subseteq># mset (stamps_of m)"
  using mset_stamps_Map_delete [of d m] by (metis mset_subset_eq_add_left)

lemma Map_set_stamps_add:
  assumes "mset (stamps n) \<subseteq># add_mset c (case Map_get m d of None \<Rightarrow> {#} | Some old \<Rightarrow> mset (stamps old))"
  shows "mset (stamps_of (Map_set d n m)) \<subseteq># add_mset c (mset (stamps_of m))"
  using Map_set_stamps_le [of n m d "{#c#}"] assms by simp

lemma write_path_stamps:
  "mset (stamps_of (write_path m ds v c)) \<subseteq># add_mset c (mset (stamps_of m))"
proof (induction m ds v c rule: write_path.induct)
  case (1 m v stamp)
  show ?case by simp
next
  case (2 m d v stamp)
  show ?case
    by (auto intro!: Map_set_stamps_add simp add: mset_stamps_node)
next
  case (3 m d e es v stamp)
  show ?case
  proof (cases "Map_get m d")
    case None
    with 3(1) show ?thesis
      by (auto intro!: Map_set_stamps_add simp add: mset_stamps_node stamps_of_Nil)
  next
    case (Some c)
    obtain mp val where c: "c = Node mp val" by (cases c)
    show ?thesis
    proof (cases mp)
      case None
      with Some c 3(2) show ?thesis
        by (auto intro!: Map_set_stamps_add simp add: mset_stamps_node stamps_of_Nil split: option.splits)
    next
      case (Some sub)
      with \<open>Map_get m d = Some c\<close> c 3(3) show ?thesis
        by (auto intro!: Map_set_stamps_add simp add: mset_stamps_node split: option.splits)
    qed
  qed
qed

lemma restamp_stamps:
  "mset (stamps_of (restamp m ds c)) \<subseteq># add_mset c (mset (stamps_of m))"
proof (induction m ds c rule: restamp.induct)
  case (1 m stamp)
  show ?case by simp
next
  case (2 m d stamp)
  show ?case
    by (auto intro!: Map_set_stamps_add simp add: mset_stamps_node split: option.splits node.splits)
next
  case (3 m d e es stamp)
  show ?case
  proof (cases "Map_get m d")
    case None
    then show ?thesis by simp
  next
    case (Some c)
    obtain mp val where c: "c = Node mp val" by (cases c)
    show ?thesis
    proof (cases mp)
      case None
      with Some c show ?thesis by simp
    next
      case (Some sub)
      with \<open>Map_get m d = Some c\<close> c 3 show ?thesis
        by (auto intro!: Map_set_stamps_add simp add: mset_stamps_node split: option.splits)
    qed
  qed
qed

lemma Map_set_stamps_sub:
  assumes "mset (stamps n) \<subseteq># (case Map_get m d of None \<Rightarrow> {#} | Some old \<Rightarrow> mset (stamps old))"
  shows "mset (stamps_of (Map_set d n m)) \<subseteq># mset (stamps_of m)"
  using Map_set_stamps_le [of n m d "{#}"] assms by simp

lemma deleteByPath_stamps:
  "deleteByPath m ds = Inr (m', r) \<Longrightarrow> mset (stamps_of m') \<subseteq># mset (stamps_of m)"
proof (induction m ds arbitrary: m' r rule: deleteByPath.induct)
  case (1 currentCache)
  then show ?case by simp
next
  case (2 currentCache d)
  then show ?case
    by (auto intro!: Map_set_stamps_sub Map_delete_stamps_le simp add: mset_stamps_node
        split: option.splits)
next
  case (3 currentCache d e es)
  from 3(2) obtain c where get: "Map_get currentCache d = Some c"
    by (auto split: option.splits)
  obtain mp val where c: "c = Node mp val" by (cases c)
  from 3(2) get c obtain sub where mp: "mp = Some sub"
    by (auto split: option.splits)
  from 3(2) get c mp obtain sub' where del: "deleteByPath sub (e # es) = Inr (sub', r)"
    by (auto split: option.splits sum.splits prod.splits if_splits)
  from 3(1) [OF get _ del] c mp have le: "mset (stamps_of sub') \<subseteq># mset (stamps_of sub)"
    by simp
  show ?case
  proof (cases "sub' = [] \<and> val = None")
    case True
    with 3(2) get c mp del have "m' = Map_delete d currentCache" by simp
    then show ?thesis by (simp add: Map_delete_stamps_le)
  next
    case False
    with 3(2) get c mp del have "m' = Map_set d (Node (Some sub') val) currentCache" by auto
    with get c mp le show ?thesis
      by (auto intro!: Map_set_stamps_sub simp add: mset_stamps_node split: option.splits)
  qed
qed

subsection \<open>The walk after a write\<close>

lemma walk_from_None: "foldl walk_step None ds = None"
  by (induction ds) (simp_all add: walk_step_def)

lemma walk_Nil: "walk m [] = Some (Node (Some m) None)"
  by (simp add: walk_def)

lemma walk_Cons:
  "walk m (d # ds) =
     (case Map_get m d of
        None \<Rightarrow> None
      | Some c \<Rightarrow> (if ds = [] then Some c
                   else (case node_map c of None \<Rightarrow> None | Some sub \<Rightarrow> walk sub ds)))"
proof (cases "Map_get m d")
  case None
  then show ?thesis by (simp add: walk_def walk_step_def walk_from_None)
next
  case (Some c)
  show ?thesis
  proof (cases ds)
    case Nil
    with Some show ?thesis by (simp add: walk_def walk_step_def)
  next
    case (Cons e es)
    with Some show ?thesis
      by (simp add: walk_def walk_step_def walk_from_None split: option.splits)
  qed
qed

lemma walk_write_path:
  "ds \<noteq> [] \<Longrightarrow> walk (write_path m ds v c) ds = Some (Node None (Some (v, c)))"
proof (induction m ds v c rule: write_path.induct)
  case (1 m v stamp)
  then show ?case by simp
next
  case (2 m d v stamp)
  show ?case by (simp add: walk_Cons Map_get_Map_set_same)
next
  case (3 m d e es v stamp)
  then show ?case
    by (simp add: walk_Cons Map_get_Map_set_same split: option.splits)
qed

lemma walk_restamp:
  "walk m ds = Some n \<Longrightarrow> node_value n = Some (v, old) \<Longrightarrow>
   walk (restamp m ds c) ds = Some (Node (node_map n) (Some (v, c)))"
proof (induction m ds c arbitrary: n rule: restamp.induct)
  case (1 m stamp)
  then show ?case by (auto simp add: walk_Nil)
next
  case (2 m d stamp)
  then show ?case
    by (cases n) (auto simp add: walk_Cons Map_get_Map_set_same split: option.splits)
next
  case (3 m d e es stamp)
  from 3(2) obtain c where get: "Map_get m d = Some c"
    by (auto simp add: walk_Cons split: option.splits)
  obtain mp val where c: "c = Node mp val" by (cases c)
  from 3(2) get c obtain sub where mp: "mp = Some sub"
    by (auto simp add: walk_Cons split: option.splits)
  from 3(2) get c mp have "walk sub (e # es) = Some n"
    by (simp add: walk_Cons)
  from 3(1) [OF get c mp this 3(3)] get c mp show ?case
    by (simp add: walk_Cons [of _ d] Map_get_Map_set_same)
qed

subsection \<open>Every stamp in the trie was issued once, below the counter\<close>

lemma stamps_inv_new: "stamps_inv new_ThemeCache"
  by (simp add: stamps_inv_def new_ThemeCache_def stamps_of_Nil)

lemma stamps_inv_bound: "stamps_inv t \<Longrightarrow> s \<in> set (stamps_of (tcache t)) \<Longrightarrow> s < cacheCallTimes t"
proof -
  assume "stamps_inv t" and "s \<in> set (stamps_of (tcache t))"
  then have "s \<in># mset_set {0..<cacheCallTimes t}"
    unfolding stamps_inv_def by (metis mset_subset_eqD set_mset_mset)
  then show ?thesis by simp
qed

lemma stamps_inv_distinct: "stamps_inv t \<Longrightarrow> distinct (stamps_of (tcache t))"
proof -
  assume "stamps_inv t"
  then have "count (mset (stamps_of (tcache t))) a \<le> count (mset_set {0..<cacheCallTimes t}) a" for a
    unfolding stamps_inv_def by (rule mset_subset_eq_count)
  moreover have "count (mset_set {0..<cacheCallTimes t}) a \<le> 1" for a
    by (simp add: count_mset_set')
  ultimately have le: "count (mset (stamps_of (tcache t))) a \<le> 1" for a
    by (rule order_trans)
  have "count (mset (stamps_of (tcache t))) a = (if a \<in> set (stamps_of (tcache t)) then 1 else 0)" for a
  proof (cases "a \<in> set (stamps_of (tcache t))")
    case True
    then have "count (mset (stamps_of (tcache t))) a \<noteq> 0" by simp
    with le [of a] have "count (mset (stamps_of (tcache t))) a = 1" by arith
    with True show ?thesis by (simp only: if_True)
  next
    case False
    then show ?thesis by simp
  qed
  then show ?thesis by (simp only: distinct_count_atmost_1) simp
qed

lemma stamps_inv_fresh_stamp:
  assumes "stamps_inv t"
    and "mset (stamps_of m') \<subseteq># add_mset (cacheCallTimes t) (mset (stamps_of (tcache t)))"
  shows "mset (stamps_of m') \<subseteq># mset_set {0..<Suc (cacheCallTimes t)}"
proof -
  have "add_mset (cacheCallTimes t) (mset (stamps_of (tcache t)))
          \<subseteq># add_mset (cacheCallTimes t) (mset_set {0..<cacheCallTimes t})"
    using assms(1) by (simp add: stamps_inv_def)
  moreover have "mset_set {0..<Suc (cacheCallTimes t)}
          = add_mset (cacheCallTimes t) (mset_set {0..<cacheCallTimes t})"
    by (simp add: atLeastLessThanSuc)
  ultimately show ?thesis using assms(2) by (metis subset_mset.order_trans)
qed

lemma internalGet_False_state: "snd (internalGet ds False t) = t"
  by (simp add: internalGet_def split: option.splits prod.splits)

lemma ThemeCache_has_state: "snd (ThemeCache_has ds t) = t"
  using internalGet_False_state [of ds t]
  by (cases "internalGet ds False t") (simp add: ThemeCache_has_def)

lemma ThemeCache_has_iff:
  "fst (ThemeCache_has ds t) = (\<exists>v stamp. fst (internalGet ds False t) = Some (v, stamp))"
  by (cases "internalGet ds False t") (auto simp add: ThemeCache_has_def)

lemma ThemeCache_get_state:
  "snd (ThemeCache_get ds t) = snd (internalGet ds True t)"
  by (cases "internalGet ds True t") (simp add: ThemeCache_get_def)

lemma internalGet_True_cases:
  "snd (internalGet ds True t) = t
   \<or> snd (internalGet ds True t) =
       t\<lparr>tcache := restamp (tcache t) ds (cacheCallTimes t), cacheCallTimes := Suc (cacheCallTimes t)\<rparr>"
  by (simp add: internalGet_def split: option.splits prod.splits)

lemma ThemeCache_get_inv:
  assumes "stamps_inv t"
  shows "stamps_inv (snd (ThemeCache_get ds t))"
proof -
  have "stamps_inv (t\<lparr>tcache := restamp (tcache t) ds (cacheCallTimes t), cacheCallTimes := Suc (cacheCallTimes t)\<rparr>)"
    using stamps_inv_fresh_stamp [OF assms restamp_stamps] by (simp add: stamps_inv_def)
  with assms internalGet_True_cases [of ds t] show ?thesis
    by (auto simp add: ThemeCache_get_state)
qed

lemma ThemeCache_get_counter: "cacheCallTimes t \<le> cacheCallTimes (snd (ThemeCache_get ds t))"
  using internalGet_True_cases [of ds t] by (auto simp add: ThemeCache_get_state)

lemma ThemeCache_delete_cases:
  "state_of (ThemeCache_delete ds t) = t
   \<or> (\<exists>m r. deleteByPath (tcache t) ds = Inr (m, r) \<and>
         state_of (ThemeCache_delete ds t) =
           t\<lparr>keys := filter (\<lambda>item. \<not> sameDerivativeOption item ds) (keys t), tcache := m\<rparr>)
   \<or> state_of (ThemeCache_delete ds t) =
       t\<lparr>keys := filter (\<lambda>item. \<not> sameDerivativeOption item ds) (keys t)\<rparr>"
  by (cases "deleteByPath (tcache t) ds") (auto simp add: ThemeCache_delete_def Let_def)

lemma ThemeCache_delete_counter:
  "cacheCallTimes (state_of (ThemeCache_delete ds t)) = cacheCallTimes t"
  using ThemeCache_delete_cases [of ds t] by auto

lemma ThemeCache_delete_stamps:
  "mset (stamps_of (tcache (state_of (ThemeCache_delete ds t)))) \<subseteq># mset (stamps_of (tcache t))"
  using ThemeCache_delete_cases [of ds t] by (auto dest: deleteByPath_stamps)

lemma evict_cases:
  "state_of (evict t) = t \<or> (\<exists>k. state_of (evict t) = state_of (ThemeCache_delete k t))"
proof (cases "eviction_scan t (keys t) (case keys t of [] \<Rightarrow> None | k0 # ks \<Rightarrow> Some k0, cacheCallTimes t)")
  case (Inl e)
  then show ?thesis by (simp add: evict_def)
next
  case (Inr res)
  obtain target callTimes where res: "res = (target, callTimes)" by (cases res)
  show ?thesis
  proof (cases target)
    case None
    with Inr res show ?thesis by (simp add: evict_def)
  next
    case (Some k)
    with Inr res have "state_of (evict t) = state_of (ThemeCache_delete k t)"
      by (cases "ThemeCache_delete k t") (simp_all add: evict_def)
    then show ?thesis by blast
  qed
qed

lemma evict_counter: "cacheCallTimes (state_of (evict t)) = cacheCallTimes t"
  using evict_cases [of t] by (auto simp add: ThemeCache_delete_counter)

lemma evict_stamps:
  "mset (stamps_of (tcache (state_of (evict t)))) \<subseteq># mset (stamps_of (tcache t))"
  using evict_cases [of t] by (auto simp add: ThemeCache_delete_stamps)

lemma ThemeCache_set_Returns:
  assumes "ThemeCache_set S F ds v t = Returns u t3"
  shows "\<exists>t'. cacheCallTimes t' = cacheCallTimes t
          \<and> mset (stamps_of (tcache t')) \<subseteq># mset (stamps_of (tcache t))
          \<and> t3 = t'\<lparr>tcache := write_path (tcache t') ds v (cacheCallTimes t'),
                     cacheCallTimes := (if ds = [] then cacheCallTimes t' else cacheCallTimes t' + 1)\<rparr>"
proof (cases "fst (ThemeCache_has ds t)")
  case True
  with assms have "t3 = t\<lparr>tcache := write_path (tcache t) ds v (cacheCallTimes t),
                     cacheCallTimes := (if ds = [] then cacheCallTimes t else cacheCallTimes t + 1)\<rparr>"
    by (simp add: ThemeCache_set_def)
  then show ?thesis by (intro exI [of _ t]) simp
next
  case False
  show ?thesis
  proof (cases "int (ThemeCache_size t) + 1 > S + F")
    case no_evict: False
    let ?t' = "t\<lparr>keys := keys t @ [ds]\<rparr>"
    from assms False no_evict
    have "t3 = ?t'\<lparr>tcache := write_path (tcache ?t') ds v (cacheCallTimes ?t'),
                     cacheCallTimes := (if ds = [] then cacheCallTimes ?t' else cacheCallTimes ?t' + 1)\<rparr>"
      by (simp add: ThemeCache_set_def)
    then show ?thesis by (intro exI [of _ ?t']) simp
  next
    case True
    show ?thesis
    proof (cases "evict t")
      case (Throws e t')
      with assms False True show ?thesis by (simp add: ThemeCache_set_def)
    next
      case (Returns u1 t1)
      let ?t' = "t1\<lparr>keys := keys t1 @ [ds]\<rparr>"
      from Returns have t1: "t1 = state_of (evict t)" by simp
      from assms False True Returns
      have "t3 = ?t'\<lparr>tcache := write_path (tcache ?t') ds v (cacheCallTimes ?t'),
                     cacheCallTimes := (if ds = [] then cacheCallTimes ?t' else cacheCallTimes ?t' + 1)\<rparr>"
        by (simp add: ThemeCache_set_def)
      moreover have "cacheCallTimes ?t' = cacheCallTimes t"
        by (simp add: t1 evict_counter)
      moreover have "mset (stamps_of (tcache ?t')) \<subseteq># mset (stamps_of (tcache t))"
        by (simp add: t1 evict_stamps)
      ultimately show ?thesis by (intro exI [of _ ?t']) blast
    qed
  qed
qed

lemma ThemeCache_set_Throws:
  assumes "ThemeCache_set S F ds v t = Throws e t'"
  shows "t' = state_of (evict t)"
proof -
  from assms have "evict t = Throws e t'"
    by (auto simp add: ThemeCache_set_def split: if_splits outcome.splits)
  then show ?thesis by simp
qed

lemma stamps_inv_mono:
  "stamps_inv t \<Longrightarrow> cacheCallTimes t' = cacheCallTimes t \<Longrightarrow>
   mset (stamps_of (tcache t')) \<subseteq># mset (stamps_of (tcache t)) \<Longrightarrow> stamps_inv t'"
  unfolding stamps_inv_def by (metis subset_mset.order_trans)

lemma ThemeCache_set_inv:
  assumes "stamps_inv t"
  shows "stamps_inv (state_of (ThemeCache_set S F ds v t))"
proof (cases "ThemeCache_set S F ds v t")
  case (Throws e t')
  then have "t' = state_of (evict t)" by (rule ThemeCache_set_Throws)
  with Throws assms show ?thesis
    by (auto intro: stamps_inv_mono simp add: evict_counter evict_stamps)
next
  case (Returns u t3)
  from ThemeCache_set_Returns [OF this] obtain t' where
    c: "cacheCallTimes t' = cacheCallTimes t" and
    le: "mset (stamps_of (tcache t')) \<subseteq># mset (stamps_of (tcache t))" and
    t3: "t3 = t'\<lparr>tcache := write_path (tcache t') ds v (cacheCallTimes t'),
                cacheCallTimes := (if ds = [] then cacheCallTimes t' else cacheCallTimes t' + 1)\<rparr>"
    by blast
  from assms c le have inv': "stamps_inv t'" by (rule stamps_inv_mono)
  show ?thesis
  proof (cases "ds = []")
    case True
    with t3 inv' Returns show ?thesis by (simp add: stamps_inv_def)
  next
    case False
    with t3 Returns stamps_inv_fresh_stamp [OF inv' write_path_stamps, of ds v] show ?thesis
      by (simp add: stamps_inv_def)
  qed
qed

lemma ThemeCache_set_counter:
  "cacheCallTimes t \<le> cacheCallTimes (state_of (ThemeCache_set S F ds v t))"
proof (cases "ThemeCache_set S F ds v t")
  case (Throws e t')
  then have "t' = state_of (evict t)" by (rule ThemeCache_set_Throws)
  with Throws show ?thesis by (simp add: evict_counter)
next
  case (Returns u t3)
  from ThemeCache_set_Returns [OF this] Returns show ?thesis by auto
qed

lemma ThemeCache_delete_inv: "stamps_inv t \<Longrightarrow> stamps_inv (state_of (ThemeCache_delete ds t))"
  by (erule stamps_inv_mono) (simp_all add: ThemeCache_delete_counter ThemeCache_delete_stamps)

lemma apply_operation_inv: "stamps_inv t \<Longrightarrow> stamps_inv (apply_operation S F x t)"
  by (cases x)
    (simp_all add: ThemeCache_has_state ThemeCache_get_inv ThemeCache_set_inv ThemeCache_delete_inv)

lemma apply_operation_counter: "cacheCallTimes t \<le> cacheCallTimes (apply_operation S F x t)"
  by (cases x)
    (simp_all add: ThemeCache_has_state ThemeCache_get_counter ThemeCache_set_counter
      ThemeCache_delete_counter)

lemma run_inv: "stamps_inv t \<Longrightarrow> stamps_inv (run S F xs t)"
  by (induction xs arbitrary: t) (simp_all add: apply_operation_inv)

lemma run_counter: "cacheCallTimes t \<le> cacheCallTimes (run S F xs t)"
proof (induction xs arbitrary: t)
  case Nil
  show ?case by simp
next
  case (Cons x xs)
  have "cacheCallTimes t \<le> cacheCallTimes (apply_operation S F x t)"
    by (rule apply_operation_counter)
  also have "\<dots> \<le> cacheCallTimes (run S F xs (apply_operation S F x t))"
    by (rule Cons.IH)
  finally show ?case by simp
qed

lemma get_restamps:
  assumes "fst (internalGet ds False t) = Some (v, old)"
  shows "fst (internalGet ds False (snd (ThemeCache_get ds t))) = Some (v, cacheCallTimes t)
       \<and> fst (ThemeCache_get ds t) = Some v
       \<and> cacheCallTimes (snd (ThemeCache_get ds t)) = cacheCallTimes t + 1"
proof -
  from assms obtain n where n: "walk (tcache t) ds = Some n" "node_value n = Some (v, old)"
    by (auto simp add: internalGet_def split: option.splits)
  then have "walk (restamp (tcache t) ds (cacheCallTimes t)) ds = Some (Node (node_map n) (Some (v, cacheCallTimes t)))"
    by (rule walk_restamp)
  with n show ?thesis
    by (simp add: ThemeCache_get_def internalGet_def)
qed

lemma set_stamps_leaf:
  assumes "ThemeCache_set S F ds v t = Returns u t3" and "ds \<noteq> []"
  shows "fst (internalGet ds False t3) = Some (v, cacheCallTimes t)
       \<and> cacheCallTimes t3 = cacheCallTimes t + 1"
proof -
  from ThemeCache_set_Returns [OF assms(1)] assms(2) obtain t' where
    c: "cacheCallTimes t' = cacheCallTimes t" and
    t3: "t3 = t'\<lparr>tcache := write_path (tcache t') ds v (cacheCallTimes t'),
                cacheCallTimes := cacheCallTimes t' + 1\<rparr>"
    by auto
  from assms(2) have "walk (write_path (tcache t') ds v (cacheCallTimes t')) ds
      = Some (Node None (Some (v, cacheCallTimes t')))"
    by (rule walk_write_path)
  with t3 c show ?thesis by (simp add: internalGet_def)
qed

subsection \<open>Deleting, and the scan for the sequence to evict\<close>

lemma sameDerivativeOption_iff: "sameDerivativeOption left right = (left = right)"
proof -
  have "length l = length r \<Longrightarrow> list_all (\<lambda>(a, b). a = b) (zip l r) = (l = r)" for l r :: "'a list"
    by (induction l r rule: list_induct2) auto
  then show ?thesis by auto
qed

lemma deleteByPath_write_path_fresh:
  "ds \<noteq> [] \<Longrightarrow> deleteByPath (write_path [] ds v c) ds = Inr ([], Some v)"
proof (induction ds)
  case Nil
  then show ?case by simp
next
  case (Cons d ds)
  show ?case
  proof (cases ds)
    case Nil
    then show ?thesis by simp
  next
    case (Cons e es)
    with Cons.IH have "deleteByPath (write_path [] (e # es) v c) (e # es) = Inr ([], Some v)"
      by simp
    with Cons show ?thesis by simp
  qed
qed

lemma eviction_scan_step:
  "leaf_stamp t key = Some s \<Longrightarrow>
   eviction_scan t (key # rest) (tk, c) =
     eviction_scan t rest (if s < c then (Some key, s) else (tk, c))"
  by (auto simp add: leaf_stamp_def split: option.splits)

lemma eviction_scan_no_leaf:
  "leaf_stamp t key = None \<Longrightarrow> eviction_scan t (key # rest) (tk, c) = Inl TypeError"
  by (auto simp add: leaf_stamp_def split: option.splits)

declare eviction_scan.simps(2) [simp del]

lemma eviction_scan_Inr_leaves:
  "eviction_scan t ks init = Inr res \<Longrightarrow> k \<in> set ks \<Longrightarrow> \<exists>s. leaf_stamp t k = Some s"
proof (induction ks arbitrary: init)
  case Nil
  then show ?case by simp
next
  case (Cons key rest)
  obtain tk c where init: "init = (tk, c)" by (cases init)
  from Cons.prems(1) init obtain s where s: "leaf_stamp t key = Some s"
    by (cases "leaf_stamp t key") (simp_all add: eviction_scan_no_leaf)
  with Cons.prems(1) init
  have "eviction_scan t rest (if s < c then (Some key, s) else (tk, c)) = Inr res"
    by (simp add: eviction_scan_step)
  then have "k \<in> set rest \<Longrightarrow> \<exists>s. leaf_stamp t k = Some s" by (rule Cons.IH)
  with Cons.prems(2) s show ?case by auto
qed

lemma eviction_scan_target:
  "eviction_scan t ks (tk, c) = Inr (Some k, c') \<Longrightarrow> k \<in> set ks \<or> tk = Some k"
proof (induction ks arbitrary: tk c)
  case Nil
  then show ?case by simp
next
  case (Cons key rest)
  from Cons.prems obtain s where s: "leaf_stamp t key = Some s"
    by (cases "leaf_stamp t key") (simp_all add: eviction_scan_no_leaf)
  with Cons.prems
  have "eviction_scan t rest (if s < c then (Some key, s) else (tk, c)) = Inr (Some k, c')"
    by (simp add: eviction_scan_step)
  with Cons.IH [of "if s < c then Some key else tk" "if s < c then s else c"] show ?case
    by (auto split: if_splits)
qed

text \<open>The scan returns the first key of least stamp among those stamped below the start
  value, or the start value when there is none.\<close>

lemma eviction_scan_first_least:
  assumes "\<forall>k \<in> set ks. \<exists>s. leaf_stamp t k = Some s"
  shows "\<exists>tk' c'. eviction_scan t ks (tk, c) = Inr (tk', c')
     \<and> (\<forall>k \<in> set ks. \<exists>s. leaf_stamp t k = Some s \<and> c' \<le> s)
     \<and> ((tk' = tk \<and> c' = c)
        \<or> (\<exists>pre k post. ks = pre @ k # post \<and> tk' = Some k \<and> leaf_stamp t k = Some c' \<and> c' < c
              \<and> (\<forall>k' \<in> set pre. \<exists>s. leaf_stamp t k' = Some s \<and> c' < s)))"
  using assms
proof (induction ks arbitrary: tk c)
  case Nil
  show ?case by simp
next
  case (Cons key rest)
  from Cons.prems obtain s where s: "leaf_stamp t key = Some s" by auto
  from Cons.prems have rest: "\<forall>k \<in> set rest. \<exists>s. leaf_stamp t k = Some s" by simp
  show ?case
  proof (cases "s < c")
    case True
    from Cons.IH [OF rest, of "Some key" s] obtain tk' c' where
      scan: "eviction_scan t rest (Some key, s) = Inr (tk', c')" and
      least: "\<forall>k \<in> set rest. \<exists>s. leaf_stamp t k = Some s \<and> c' \<le> s" and
      which: "(tk' = Some key \<and> c' = s)
        \<or> (\<exists>pre k post. rest = pre @ k # post \<and> tk' = Some k \<and> leaf_stamp t k = Some c' \<and> c' < s
              \<and> (\<forall>k' \<in> set pre. \<exists>s. leaf_stamp t k' = Some s \<and> c' < s))"
      by blast
    from scan s True have scan': "eviction_scan t (key # rest) (tk, c) = Inr (tk', c')"
      by (simp add: eviction_scan_step)
    from which have le: "c' \<le> s" by auto
    with least s have least': "\<forall>k \<in> set (key # rest). \<exists>s. leaf_stamp t k = Some s \<and> c' \<le> s"
      by simp
    from which show ?thesis
    proof
      assume "tk' = Some key \<and> c' = s"
      with s True have "key # rest = [] @ key # rest \<and> tk' = Some key \<and> leaf_stamp t key = Some c' \<and> c' < c
          \<and> (\<forall>k' \<in> set []. \<exists>s. leaf_stamp t k' = Some s \<and> c' < s)"
        by simp
      with scan' least' show ?thesis by blast
    next
      assume "\<exists>pre k post. rest = pre @ k # post \<and> tk' = Some k \<and> leaf_stamp t k = Some c' \<and> c' < s
              \<and> (\<forall>k' \<in> set pre. \<exists>s. leaf_stamp t k' = Some s \<and> c' < s)"
      then obtain pre k post where
        "rest = pre @ k # post" "tk' = Some k" "leaf_stamp t k = Some c'" "c' < s"
        "\<forall>k' \<in> set pre. \<exists>s. leaf_stamp t k' = Some s \<and> c' < s"
        by blast
      with s True have "key # rest = (key # pre) @ k # post \<and> tk' = Some k \<and> leaf_stamp t k = Some c' \<and> c' < c
          \<and> (\<forall>k' \<in> set (key # pre). \<exists>s. leaf_stamp t k' = Some s \<and> c' < s)"
        by simp
      with scan' least' show ?thesis by blast
    qed
  next
    case False
    from Cons.IH [OF rest, of tk c] obtain tk' c' where
      scan: "eviction_scan t rest (tk, c) = Inr (tk', c')" and
      least: "\<forall>k \<in> set rest. \<exists>s. leaf_stamp t k = Some s \<and> c' \<le> s" and
      which: "(tk' = tk \<and> c' = c)
        \<or> (\<exists>pre k post. rest = pre @ k # post \<and> tk' = Some k \<and> leaf_stamp t k = Some c' \<and> c' < c
              \<and> (\<forall>k' \<in> set pre. \<exists>s. leaf_stamp t k' = Some s \<and> c' < s))"
      by blast
    from scan s False have scan': "eviction_scan t (key # rest) (tk, c) = Inr (tk', c')"
      by (simp add: eviction_scan_step)
    from which have le: "c' \<le> c" by auto
    with least s False have least': "\<forall>k \<in> set (key # rest). \<exists>s. leaf_stamp t k = Some s \<and> c' \<le> s"
      by simp
    from which show ?thesis
    proof
      assume "tk' = tk \<and> c' = c"
      with scan' least' show ?thesis by blast
    next
      assume "\<exists>pre k post. rest = pre @ k # post \<and> tk' = Some k \<and> leaf_stamp t k = Some c' \<and> c' < c
              \<and> (\<forall>k' \<in> set pre. \<exists>s. leaf_stamp t k' = Some s \<and> c' < s)"
      then obtain pre k post where
        "rest = pre @ k # post" "tk' = Some k" "leaf_stamp t k = Some c'" "c' < c"
        "\<forall>k' \<in> set pre. \<exists>s. leaf_stamp t k' = Some s \<and> c' < s"
        by blast
      with s False have "key # rest = (key # pre) @ k # post \<and> tk' = Some k \<and> leaf_stamp t k = Some c' \<and> c' < c
          \<and> (\<forall>k' \<in> set (key # pre). \<exists>s. leaf_stamp t k' = Some s \<and> c' < s)"
        by simp
      with scan' least' show ?thesis by blast
    qed
  qed
qed

lemma deleteByPath_of_leaf:
  "walk m ds = Some n \<Longrightarrow> ds \<noteq> [] \<Longrightarrow>
   \<exists>m'. deleteByPath m ds = Inr (m', map_option fst (node_value n))"
proof (induction m ds rule: deleteByPath.induct)
  case (1 currentCache)
  then show ?case by simp
next
  case (2 currentCache d)
  then show ?case by (auto simp add: walk_Cons split: option.splits)
next
  case (3 currentCache d e es)
  from 3(2) obtain c where get: "Map_get currentCache d = Some c"
    by (auto simp add: walk_Cons split: option.splits)
  from 3(2) get obtain sub where mp: "node_map c = Some sub"
    by (auto simp add: walk_Cons split: option.splits)
  from 3(2) get mp have "walk sub (e # es) = Some n" by (simp add: walk_Cons)
  from 3(1) [OF get mp this] obtain sub' where
    "deleteByPath sub (e # es) = Inr (sub', map_option fst (node_value n))" by auto
  with get mp show ?case by simp
qed

lemma has_leaf_stamp: "fst (ThemeCache_has k t) = (leaf_stamp t k \<noteq> None)"
  by (cases "internalGet k False t") (simp add: ThemeCache_has_def leaf_stamp_def)

lemma ThemeCache_delete_of_leaf:
  assumes "fst (ThemeCache_has k t)"
  shows "\<exists>m r. deleteByPath (tcache t) k = Inr (m, r)
           \<and> ThemeCache_delete k t = Returns r (t\<lparr>keys := filter (\<lambda>item. item \<noteq> k) (keys t), tcache := m\<rparr>)"
proof -
  from assms obtain n x where n: "walk (tcache t) k = Some n" "node_value n = Some x"
    by (auto simp add: ThemeCache_has_def internalGet_def split: option.splits prod.splits)
  then have "k \<noteq> []" by (auto simp add: walk_Nil)
  with n(1) obtain m where "deleteByPath (tcache t) k = Inr (m, map_option fst (node_value n))"
    using deleteByPath_of_leaf by blast
  with assms show ?thesis
    by (simp add: ThemeCache_delete_def sameDerivativeOption_iff del: sameDerivativeOption.simps)
qed

lemma evict_Returns_smaller:
  assumes "evict t = Returns u t1"
  shows "ThemeCache_size t1 < ThemeCache_size t"
proof -
  let ?init = "(case keys t of [] \<Rightarrow> None | k0 # ks \<Rightarrow> Some k0, cacheCallTimes t)"
  from assms obtain k c' where scan: "eviction_scan t (keys t) ?init = Inr (Some k, c')"
    by (auto simp add: evict_def split: sum.splits option.splits prod.splits)
  from assms scan obtain r where del: "ThemeCache_delete k t = Returns r t1"
    by (auto simp add: evict_def split: outcome.splits)
  from eviction_scan_target [OF scan] have mem: "k \<in> set (keys t)"
    by (auto split: list.splits)
  from eviction_scan_Inr_leaves [OF scan mem] have "fst (ThemeCache_has k t)"
    by (auto simp add: has_leaf_stamp)
  from ThemeCache_delete_of_leaf [OF this] del obtain m where
    "t1 = t\<lparr>keys := filter (\<lambda>item. item \<noteq> k) (keys t), tcache := m\<rparr>" by auto
  with mem show ?thesis
    by (simp add: ThemeCache_size_def length_filter_less)
qed

lemma ThemeCache_delete_size: "ThemeCache_size (state_of (ThemeCache_delete ds t)) \<le> ThemeCache_size t"
  using ThemeCache_delete_cases [of ds t] by (auto simp add: ThemeCache_size_def)

lemma evict_size: "ThemeCache_size (state_of (evict t)) \<le> ThemeCache_size t"
  using evict_cases [of t] by (auto simp add: ThemeCache_delete_size)

lemma ThemeCache_set_size:
  assumes "int (ThemeCache_size t) \<le> S + F"
  shows "int (ThemeCache_size (state_of (ThemeCache_set S F ds v t))) \<le> S + F"
proof (cases "fst (ThemeCache_has ds t)")
  case True
  with assms show ?thesis by (simp add: ThemeCache_set_def ThemeCache_size_def)
next
  case False
  show ?thesis
  proof (cases "int (ThemeCache_size t) + 1 > S + F")
    case no_evict: False
    with False show ?thesis by (simp add: ThemeCache_set_def ThemeCache_size_def)
  next
    case True
    show ?thesis
    proof (cases "evict t")
      case (Throws e t')
      with evict_size [of t] have "ThemeCache_size t' \<le> ThemeCache_size t" by simp
      with Throws False True assms show ?thesis by (simp add: ThemeCache_set_def)
    next
      case (Returns u t1)
      then have "ThemeCache_size t1 < ThemeCache_size t" by (rule evict_Returns_smaller)
      with Returns False True assms show ?thesis
        by (simp add: ThemeCache_set_def ThemeCache_size_def)
    qed
  qed
qed

lemma apply_operation_size:
  assumes "int (ThemeCache_size t) \<le> S + F"
  shows "int (ThemeCache_size (apply_operation S F x t)) \<le> S + F"
proof (cases x)
  case (Has ds)
  with assms show ?thesis by (simp add: ThemeCache_has_state)
next
  case (Get ds)
  have "keys (snd (ThemeCache_get ds t)) = keys t"
    using internalGet_True_cases [of ds t] by (auto simp add: ThemeCache_get_state)
  with Get assms show ?thesis by (simp add: ThemeCache_size_def)
next
  case (Set ds v)
  with assms show ?thesis by (simp add: ThemeCache_set_size)
next
  case (Delete ds)
  with assms ThemeCache_delete_size [of ds t] show ?thesis by simp
qed

lemma run_size:
  "int (ThemeCache_size t) \<le> S + F \<Longrightarrow> int (ThemeCache_size (run S F xs t)) \<le> S + F"
  by (induction xs arbitrary: t) (simp_all add: apply_operation_size)

section \<open>Claims about the cache entity and the controller\<close>

text \<open>
  C9. A key given as a list of segments and the same key given as the one string that joins
  the segments with \<open>%\<close> address the same slot, for \<open>get\<close> and for \<open>update\<close>; so two lists of
  segments whose joins are equal address one entry.
\<close>

theorem joined_key_same_slot:
  "Entity_get w (KeyArr ks) = Entity_get w (KeyStr (join ks SPLIT))
   \<and> Entity_update (KeyArr ks) valueFn w = Entity_update (KeyStr (join ks SPLIT)) valueFn w
   \<and> (join ks SPLIT = join ks' SPLIT \<longrightarrow>
        Entity_get w (KeyArr ks) = Entity_get w (KeyArr ks')
      \<and> Entity_update (KeyArr ks) valueFn w = Entity_update (KeyArr ks') valueFn w)"
  by (simp add: Entity_get_def Entity_update_def path_of_def)

theorem joined_key_same_slot_witness:
  "[''a%b''] \<noteq> [''a'', ''b'']
   \<and> join [''a%b''] SPLIT = join [''a'', ''b''] SPLIT
   \<and> Entity_get \<lparr>cache = [''a%b'' \<mapsto> (1, JObj 0)], user = ()\<rparr> (KeyArr [''a'', ''b'']) = Some (1, JObj 0)
   \<and> Entity_get \<lparr>cache = [''a%b'' \<mapsto> (1, JObj 0)], user = ()\<rparr> (KeyArr [''a%b'']) = Some (1, JObj 0)
   \<and> Entity_update (KeyArr [''a%b'']) (clearCache_fn None) \<lparr>cache = [''a%b'' \<mapsto> (2, JObj 0)], user = ()\<rparr>
       = Entity_update (KeyArr [''a'', ''b'']) (clearCache_fn None) \<lparr>cache = [''a%b'' \<mapsto> (2, JObj 0)], user = ()\<rparr>"
proof -
  let ?w1 = "\<lparr>cache = [''a%b'' \<mapsto> (1, JObj 0)], user = ()\<rparr>"
  let ?w2 = "\<lparr>cache = [''a%b'' \<mapsto> (2, JObj 0)], user = ()\<rparr>"
  have ne: "[''a%b''] \<noteq> [''a'', ''b'']" by simp
  have j: "join [''a%b''] SPLIT = join [''a'', ''b''] SPLIT" by (simp add: SPLIT_def)
  have g: "Entity_get ?w1 (KeyArr [''a%b'']) = Some (1, JObj 0)"
    by (simp add: Entity_get_def path_of_def)
  have a: "Entity_get ?w1 (KeyArr [''a%b'']) = Entity_get ?w1 (KeyArr [''a'', ''b''])"
    using joined_key_same_slot [of ?w1 "[''a%b'']" "clearCache_fn None" "[''a'', ''b'']"] j
    by blast
  have b: "Entity_update (KeyArr [''a%b'']) (clearCache_fn None) ?w2
      = Entity_update (KeyArr [''a'', ''b'']) (clearCache_fn None) ?w2"
    using joined_key_same_slot [of ?w2 "[''a%b'']" "clearCache_fn None" "[''a'', ''b'']"] j
    by blast
  from g a have g': "Entity_get ?w1 (KeyArr [''a'', ''b'']) = Some (1, JObj 0)"
    by (simp only:)
  from ne j g' g b show ?thesis by (intro conjI)
qed

text \<open>
  C10. When \<open>clearCache\<close> runs for a key that has no entry, the map does not stay as it
  was and the disposal callback is not invoked (the caller's state is unchanged whatever
  the callback is): the entry \<open>[-1, undefined]\<close> is created under that key.
\<close>

theorem release_of_missing_key_creates_entry:
  "cache w key = None \<Longrightarrow>
   clearCache onCacheRemove key w = \<lparr>cache = (cache w)(key \<mapsto> (- 1, JUndefined)), user = user w\<rparr>
   \<and> cache (clearCache onCacheRemove key w) \<noteq> cache w"
proof -
  assume missing: "cache w key = None"
  then have eq: "clearCache onCacheRemove key w = \<lparr>cache = (cache w)(key \<mapsto> (- 1, JUndefined)), user = user w\<rparr>"
    by (rule clearCache_missing)
  then have "cache (clearCache onCacheRemove key w) key = Some (- 1, JUndefined)" by simp
  with missing have "cache (clearCache onCacheRemove key w) \<noteq> cache w" by auto
  with eq show ?thesis by simp
qed

theorem release_of_missing_key_creates_entry_witness:
  "cache empty_world ''k'' = None
   \<and> clearCache (recording_onCacheRemove ''k'') ''k'' empty_world
       = \<lparr>cache = [''k'' \<mapsto> (- 1, JUndefined)], user = []\<rparr>"
proof -
  have h: "cache empty_world ''k'' = None" by (simp add: empty_world_def)
  from h release_of_missing_key_creates_entry [OF h, of "recording_onCacheRemove ''k''"]
  show ?thesis by (simp add: empty_world_def)
qed

text \<open>
  C2, as the claim states it, fails: in the deletion path the disposal callback runs while
  the entry is still in the map. A callback that records what \<open>get\<close> on the key returns at
  the moment it runs records the entry with reference count 1, not an absent entry.
\<close>

theorem removal_before_disposal_counterexample:
  "user (clearCache (recording_onCacheRemove ''k'') ''k'' \<lparr>cache = [''k'' \<mapsto> (1, JObj 0)], user = []\<rparr>)
     = [Disposal (JObj 0) False (Some (1, JObj 0))]
   \<and> user (clearCache (recording_onCacheRemove ''k'') ''k'' \<lparr>cache = [''k'' \<mapsto> (1, JObj 0)], user = []\<rparr>)
     \<noteq> [Disposal (JObj 0) False None]"
  by (simp add: clearCache_present call_onCacheRemove_def recording_onCacheRemove_def
      Entity_get_def path_of_def)

text \<open>
  C2, amended. In the deletion path (the reference count goes from 1 to 0) the disposal
  callback runs first, in the state in which \<open>get\<close> on the key still returns the entry
  \<open>[1, payload]\<close>; the entry is removed from the map after the callback has returned.
\<close>

theorem disposal_precedes_removal:
  "cache w key = Some (1, c) \<Longrightarrow>
   clearCache onCacheRemove key w
     = \<lparr>cache = (cache w)(key := None), user = call_onCacheRemove onCacheRemove c False w\<rparr>
   \<and> Entity_get w (KeyStr key) = Some (1, c)
   \<and> Entity_get (clearCache onCacheRemove key w) (KeyStr key) = None"
  by (simp add: clearCache_present Entity_get_def path_of_def)

theorem disposal_precedes_removal_witness:
  "cache \<lparr>cache = [''k'' \<mapsto> (1, JObj 0)], user = []\<rparr> ''k'' = Some (1, JObj 0)
   \<and> clearCache (recording_onCacheRemove ''k'') ''k'' \<lparr>cache = [''k'' \<mapsto> (1, JObj 0)], user = []\<rparr>
     = \<lparr>cache = Map.empty, user = [Disposal (JObj 0) False (Some (1, JObj 0))]\<rparr>"
proof -
  have h: "cache \<lparr>cache = [''k'' \<mapsto> (1, JObj 0)], user = []\<rparr> ''k'' = Some (1, JObj 0)" by simp
  from h disposal_precedes_removal [OF h, of "recording_onCacheRemove ''k''"]
  show ?thesis
    by (simp add: call_onCacheRemove_def recording_onCacheRemove_def Entity_get_def path_of_def)
qed

text \<open>
  C4, as the claim states it, fails in development mode with the hot-reload flag asserted:
  two acquisitions of one key followed by two releases invoke the disposal callback twice,
  the first time during the second acquisition and with \<open>forcedByHotReload = true\<close>.
\<close>

theorem refcount_balance_counterexample:
  "user (release_n 2 (recording_onCacheRemove ''k'') ''k''
      (acquire_n 2 ''development'' True recording_genCache (recording_onCacheRemove ''k'') ''k''
        empty_world))
   = [Factory (JObj 0), Disposal (JObj 0) True (Some (1, JObj 0)),
      Factory (JObj 2), Disposal (JObj 2) False (Some (1, JObj 2))]"
  by (simp add: numeral_2_eq_2 onBeforeUnmount_def empty_world_def acquire_missing
      acquire_present_hmr clearCache_present call_onCacheRemove_def recording_onCacheRemove_def
      recording_genCache_def Entity_get_def path_of_def)

text \<open>
  C4, amended. Unless the hot-reload override fires (that is: in production mode, or with
  the flag not asserted), for a key with no entry and any \<open>N \<ge> 1\<close>: the first acquisition
  creates the entry with reference count 1 and the factory's payload; \<open>N\<close> acquisitions
  leave the reference count \<open>N\<close> and do not involve the disposal callback; after them, fewer
  than \<open>N\<close> releases only lower the count, and the \<open>N\<close>-th release deletes the entry (the
  map is as before the first acquisition) and invokes the disposal callback exactly once,
  on the stored payload, with \<open>forcedByHotReload = false\<close>, in the state where the count is
  still 1.
\<close>

theorem refcount_balance:
  assumes "NODE_ENV = ''production'' \<or> \<not> HMRUpdate" and "cache w k = None" and "0 < N"
  shows "acquire NODE_ENV HMRUpdate g r k w = \<lparr>cache = (cache w)(k \<mapsto> (1, fst (g w))), user = snd (g w)\<rparr>
    \<and> acquire_n N NODE_ENV HMRUpdate g r k w = acquire_n N NODE_ENV HMRUpdate g None k w
    \<and> (\<exists>p. cache (acquire_n N NODE_ENV HMRUpdate g r k w) = (cache w)(k \<mapsto> (int N, p))
        \<and> (\<forall>j<N. release_n j r k (acquire_n N NODE_ENV HMRUpdate g r k w) =
              \<lparr>cache = (cache w)(k \<mapsto> (int N - int j, p)),
               user = user (acquire_n N NODE_ENV HMRUpdate g r k w)\<rparr>)
        \<and> release_n N r k (acquire_n N NODE_ENV HMRUpdate g r k w) =
              \<lparr>cache = cache w,
               user = call_onCacheRemove r p False
                 \<lparr>cache = (cache w)(k \<mapsto> (1, p)), user = user (acquire_n N NODE_ENV HMRUpdate g r k w)\<rparr>\<rparr>)"
proof -
  let ?wN = "acquire_n N NODE_ENV HMRUpdate g r k w"
  have first: "acquire NODE_ENV HMRUpdate g r k w = \<lparr>cache = (cache w)(k \<mapsto> (1, fst (g w))), user = snd (g w)\<rparr>"
    using assms(2) by (rule acquire_missing)
  have indep: "?wN = acquire_n N NODE_ENV HMRUpdate g None k w"
    using assms(1) by (rule acquire_n_no_hmr_ignores_callback)
  obtain p where p: "cache ?wN = (cache w)(k \<mapsto> (int N, p))"
    using acquire_n_count [OF assms(3), of NODE_ENV HMRUpdate g r k w] assms(2)
    by (auto simp add: destructure_def)
  then have at_k: "cache ?wN k = Some (int N, p)" by simp
  have below: "release_n j r k ?wN = \<lparr>cache = (cache w)(k \<mapsto> (int N - int j, p)), user = user ?wN\<rparr>"
    if "j < N" for j
    using release_n_below [OF at_k, of j r] that p by simp
  have "(cache w)(k := None) = cache w" using assms(2) by auto
  then have all: "release_n N r k ?wN =
      \<lparr>cache = cache w,
       user = call_onCacheRemove r p False \<lparr>cache = (cache w)(k \<mapsto> (1, p)), user = user ?wN\<rparr>\<rparr>"
    using release_n_all [OF at_k assms(3), of r] p by simp
  from first indep p below all show ?thesis by blast
qed

theorem refcount_balance_witness:
  "(''production'' = ''production'' \<or> \<not> True)
   \<and> cache empty_world ''k'' = None
   \<and> (0::nat) < 3
   \<and> release_n 3 (recording_onCacheRemove ''k'') ''k''
        (acquire_n 3 ''production'' True recording_genCache (recording_onCacheRemove ''k'') ''k'' empty_world)
      = \<lparr>cache = Map.empty, user = [Factory (JObj 0), Disposal (JObj 0) False (Some (1, JObj 0))]\<rparr>"
proof -
  let ?r = "recording_onCacheRemove ''k''"
  let ?w3 = "acquire_n 3 ''production'' True recording_genCache ?r ''k'' empty_world"
  have h1: "''production'' = ''production'' \<or> \<not> True" by simp
  have h2: "cache empty_world ''k'' = None" by (simp add: empty_world_def)
  have h3: "(0::nat) < 3" by simp
  have w3: "?w3 = \<lparr>cache = [''k'' \<mapsto> (3, JObj 0)], user = [Factory (JObj 0)]\<rparr>"
    by (simp add: numeral_3_eq_3 empty_world_def acquire_missing acquire_present_plain
        recording_genCache_def)
  from refcount_balance [OF h1 h2 h3, of recording_genCache ?r]
  obtain p where p: "cache ?w3 = (cache empty_world)(''k'' \<mapsto> (int 3, p))"
    and rel: "release_n 3 ?r ''k'' ?w3 =
      \<lparr>cache = cache empty_world,
       user = call_onCacheRemove ?r p False
         \<lparr>cache = (cache empty_world)(''k'' \<mapsto> (1, p)), user = user ?w3\<rparr>\<rparr>"
    by blast
  from p w3 have "[''k'' \<mapsto> (3, JObj 0)] = (cache empty_world)(''k'' \<mapsto> (int 3, p))"
    by simp
  then have "(3, JObj 0) = (int 3, p)" by (rule map_upd_eqD1)
  then have "p = JObj 0" by simp
  with rel w3 have "release_n 3 ?r ''k'' ?w3
      = \<lparr>cache = Map.empty, user = [Factory (JObj 0), Disposal (JObj 0) False (Some (1, JObj 0))]\<rparr>"
    by (simp add: empty_world_def call_onCacheRemove_def recording_onCacheRemove_def
        Entity_get_def path_of_def)
  with h1 h2 h3 show ?thesis by blast
qed

text \<open>
  C7, as the claim states it, fails in three ways. In development mode with the hot-reload
  flag asserted, a second acquisition of the same key invokes the factory again and
  exposes another instance. With a factory whose payload is falsy (here the number 0), a
  second acquisition invokes the factory again although the entry is held. With a
  factory that returns one and the same object at every call, two different keys share
  that instance.
\<close>

theorem one_factory_call_per_key_counterexample:
  "watch_callback ''development'' True recording_genCache (recording_onCacheRemove ''k'') ''k'' None
       empty_world
     = Inr (JObj 0, \<lparr>cache = [''k'' \<mapsto> (1, JObj 0)], user = [Factory (JObj 0)]\<rparr>)
   \<and> watch_callback ''development'' True recording_genCache (recording_onCacheRemove ''k'') ''k'' None
       \<lparr>cache = [''k'' \<mapsto> (1, JObj 0)], user = [Factory (JObj 0)]\<rparr>
     = Inr (JObj 2, \<lparr>cache = [''k'' \<mapsto> (2, JObj 2)],
                     user = [Factory (JObj 0), Disposal (JObj 0) True (Some (1, JObj 0)), Factory (JObj 2)]\<rparr>)
   \<and> watch_callback ''production'' False zero_genCache None ''k'' None empty_world
     = Inr (JNum 0, \<lparr>cache = [''k'' \<mapsto> (1, JNum 0)], user = [Factory (JNum 0)]\<rparr>)
   \<and> watch_callback ''production'' False zero_genCache None ''k'' None
       \<lparr>cache = [''k'' \<mapsto> (1, JNum 0)], user = [Factory (JNum 0)]\<rparr>
     = Inr (JNum 0, \<lparr>cache = [''k'' \<mapsto> (2, JNum 0)], user = [Factory (JNum 0), Factory (JNum 0)]\<rparr>)
   \<and> watch_callback ''production'' False constant_genCache None ''k1'' None empty_world
     = Inr (JObj 7, \<lparr>cache = [''k1'' \<mapsto> (1, JObj 7)], user = [Factory (JObj 7)]\<rparr>)
   \<and> watch_callback ''production'' False constant_genCache None ''k2'' None
       \<lparr>cache = [''k1'' \<mapsto> (1, JObj 7)], user = [Factory (JObj 7)]\<rparr>
     = Inr (JObj 7, \<lparr>cache = [''k1'' \<mapsto> (1, JObj 7), ''k2'' \<mapsto> (1, JObj 7)],
                     user = [Factory (JObj 7), Factory (JObj 7)]\<rparr>)"
  by (simp add: numeral_2_eq_2 empty_world_def watch_callback_missing watch_callback_present_hmr
      watch_callback_present_falsy call_onCacheRemove_def recording_onCacheRemove_def
      recording_genCache_def zero_genCache_def constant_genCache_def Entity_get_def path_of_def)

text \<open>
  C7, amended. Unless the hot-reload override fires (production mode, or the flag not
  asserted), an acquisition of a key whose entry holds a truthy payload returns that same
  payload, only adds 1 to the reference count and invokes neither the factory nor the
  disposal callback (the caller's state is unchanged). An acquisition of a key with no
  entry invokes the factory once and stores its result with reference count 1. An
  acquisition never changes the entry of another key; so if the factory's result is not a
  payload stored already, no other key holds the payload of the acquired key.
\<close>

theorem one_factory_call_per_key:
  "((NODE_ENV = ''production'' \<or> \<not> HMRUpdate) \<and> cache w k = Some (t, c) \<and> truthy c \<longrightarrow>
      watch_callback NODE_ENV HMRUpdate g r k None w
        = Inr (c, \<lparr>cache = (cache w)(k \<mapsto> (t + 1, c)), user = user w\<rparr>))
   \<and> (cache w k = None \<longrightarrow>
      watch_callback NODE_ENV HMRUpdate g r k None w
        = Inr (fst (g w), \<lparr>cache = (cache w)(k \<mapsto> (1, fst (g w))), user = snd (g w)\<rparr>))
   \<and> (k' \<noteq> k \<longrightarrow> cache (acquire NODE_ENV HMRUpdate g r k w) k' = cache w k')
   \<and> (cache w k = None \<and> (\<forall>k' e. cache w k' = Some e \<longrightarrow> snd e \<noteq> fst (g w)) \<longrightarrow>
      (\<forall>k' e. k' \<noteq> k \<and> cache (acquire NODE_ENV HMRUpdate g r k w) k' = Some e \<longrightarrow> snd e \<noteq> fst (g w)))"
proof -
  have frame: "cache (acquire NODE_ENV HMRUpdate g r k w) k' = cache w k'" if "k' \<noteq> k" for k'
    using that by (rule acquire_frame)
  have "snd e \<noteq> fst (g w)"
    if "\<forall>k' e. cache w k' = Some e \<longrightarrow> snd e \<noteq> fst (g w)"
      and "k' \<noteq> k \<and> cache (acquire NODE_ENV HMRUpdate g r k w) k' = Some e" for k' e
  proof -
    from that(2) frame [of k'] have "cache w k' = Some e" by simp
    with that(1) show ?thesis by blast
  qed
  then show ?thesis
    using frame by (simp add: watch_callback_present_plain watch_callback_missing)
qed

theorem one_factory_call_per_key_witness:
  "(''production'' = ''production'' \<or> \<not> True)
   \<and> cache \<lparr>cache = [''k'' \<mapsto> (1, JObj 0)], user = [Factory (JObj 0)]\<rparr> ''k'' = Some (1, JObj 0)
   \<and> truthy (JObj 0)
   \<and> watch_callback ''production'' True recording_genCache (recording_onCacheRemove ''k'') ''k'' None
        \<lparr>cache = [''k'' \<mapsto> (1, JObj 0)], user = [Factory (JObj 0)]\<rparr>
      = Inr (JObj 0, \<lparr>cache = [''k'' \<mapsto> (2, JObj 0)], user = [Factory (JObj 0)]\<rparr>)
   \<and> cache \<lparr>cache = [''k'' \<mapsto> (1, JObj 0)], user = [Factory (JObj 0)]\<rparr> ''k2'' = None
   \<and> ''k'' \<noteq> ''k2''
   \<and> watch_callback ''production'' True recording_genCache (recording_onCacheRemove ''k'') ''k2'' None
        \<lparr>cache = [''k'' \<mapsto> (1, JObj 0)], user = [Factory (JObj 0)]\<rparr>
      = Inr (JObj 1, \<lparr>cache = [''k'' \<mapsto> (1, JObj 0), ''k2'' \<mapsto> (1, JObj 1)],
                      user = [Factory (JObj 0), Factory (JObj 1)]\<rparr>)"
proof -
  let ?w = "\<lparr>cache = [''k'' \<mapsto> (1, JObj 0)], user = [Factory (JObj 0)]\<rparr>"
  let ?r = "recording_onCacheRemove ''k''"
  have h1: "''production'' = ''production'' \<or> \<not> True" by simp
  have h2: "cache ?w ''k'' = Some (1, JObj 0)" by simp
  have h3: "truthy (JObj 0)" by simp
  have h4: "cache ?w ''k2'' = None" by simp
  have h5: "''k'' \<noteq> ''k2''" by simp
  from one_factory_call_per_key [of "''production''" True ?w "''k''" 1 "JObj 0" recording_genCache ?r]
    h1 h2 h3
  have a: "watch_callback ''production'' True recording_genCache ?r ''k'' None ?w
      = Inr (JObj 0, \<lparr>cache = (cache ?w)(''k'' \<mapsto> (1 + 1, JObj 0)), user = user ?w\<rparr>)"
    by blast
  from one_factory_call_per_key [of "''production''" True ?w "''k2''" _ _ recording_genCache ?r]
    h4
  have b: "watch_callback ''production'' True recording_genCache ?r ''k2'' None ?w
      = Inr (fst (recording_genCache ?w),
             \<lparr>cache = (cache ?w)(''k2'' \<mapsto> (1, fst (recording_genCache ?w))),
              user = snd (recording_genCache ?w)\<rparr>)"
    by blast
  from a have a': "watch_callback ''production'' True recording_genCache ?r ''k'' None ?w
      = Inr (JObj 0, \<lparr>cache = [''k'' \<mapsto> (2, JObj 0)], user = [Factory (JObj 0)]\<rparr>)"
    by simp
  from b have b': "watch_callback ''production'' True recording_genCache ?r ''k2'' None ?w
      = Inr (JObj 1, \<lparr>cache = [''k'' \<mapsto> (1, JObj 0), ''k2'' \<mapsto> (1, JObj 1)],
                      user = [Factory (JObj 0), Factory (JObj 1)]\<rparr>)"
    by (simp add: recording_genCache_def)
  from h1 h2 h3 a' h4 h5 b' show ?thesis by (intro conjI)
qed

text \<open>
  C8, as the claim states it, fails in two ways. When the payload of the existing entry is
  falsy (here the number 0), re-acquiring the key with the hot-reload flag asserted does
  not invoke the disposal callback. When the factory returns one and the same object at
  every call, the payload exposed after the hot reload is the previous instance.
\<close>

theorem hot_reload_recreates_counterexample:
  "watch_callback ''development'' True recording_genCache (recording_onCacheRemove ''k'') ''k'' None
       \<lparr>cache = [''k'' \<mapsto> (1, JNum 0)], user = []\<rparr>
     = Inr (JObj 0, \<lparr>cache = [''k'' \<mapsto> (2, JObj 0)], user = [Factory (JObj 0)]\<rparr>)
   \<and> watch_callback ''development'' True constant_genCache (recording_onCacheRemove ''k'') ''k'' None
       \<lparr>cache = [''k'' \<mapsto> (1, JObj 7)], user = [Factory (JObj 7)]\<rparr>
     = Inr (JObj 7, \<lparr>cache = [''k'' \<mapsto> (2, JObj 7)],
                     user = [Factory (JObj 7), Disposal (JObj 7) True (Some (1, JObj 7)), Factory (JObj 7)]\<rparr>)"
  by (simp add: watch_callback_present_hmr watch_callback_present_falsy call_onCacheRemove_def
      recording_onCacheRemove_def recording_genCache_def constant_genCache_def Entity_get_def
      path_of_def)

text \<open>
  C8, amended. In development mode with the hot-reload flag asserted, re-acquiring a key
  whose entry holds a truthy payload first invokes the disposal callback on that payload
  with \<open>forcedByHotReload = true\<close> (the entry still in the map), then invokes the factory,
  stores the factory's result with the reference count raised by 1 and exposes it; the
  exposed payload is distinct from the previous one whenever the factory returns an
  instance other than the previous one.
\<close>

theorem hot_reload_recreates:
  assumes "NODE_ENV \<noteq> ''production''" and "HMRUpdate" and "cache w k = Some (t, c)" and "truthy c"
  shows "watch_callback NODE_ENV HMRUpdate g r k None w =
           Inr (fst (g (w\<lparr>user := call_onCacheRemove r c True w\<rparr>)),
                \<lparr>cache = (cache w)(k \<mapsto> (t + 1, fst (g (w\<lparr>user := call_onCacheRemove r c True w\<rparr>)))),
                 user = snd (g (w\<lparr>user := call_onCacheRemove r c True w\<rparr>))\<rparr>)
         \<and> (fst (g (w\<lparr>user := call_onCacheRemove r c True w\<rparr>)) \<noteq> c \<longrightarrow>
              (\<exists>p w'. watch_callback NODE_ENV HMRUpdate g r k None w = Inr (p, w') \<and> p \<noteq> c))"
  using watch_callback_present_hmr [OF assms(3) assms(4) assms(1) assms(2), of g r] by simp

theorem hot_reload_recreates_witness:
  "''development'' \<noteq> ''production''
   \<and> cache \<lparr>cache = [''k'' \<mapsto> (1, JObj 0)], user = [Factory (JObj 0)]\<rparr> ''k'' = Some (1, JObj 0)
   \<and> truthy (JObj 0)
   \<and> watch_callback ''development'' True recording_genCache (recording_onCacheRemove ''k'') ''k'' None
        \<lparr>cache = [''k'' \<mapsto> (1, JObj 0)], user = [Factory (JObj 0)]\<rparr>
      = Inr (JObj 2, \<lparr>cache = [''k'' \<mapsto> (2, JObj 2)],
                      user = [Factory (JObj 0), Disposal (JObj 0) True (Some (1, JObj 0)), Factory (JObj 2)]\<rparr>)
   \<and> JObj 2 \<noteq> JObj 0"
proof -
  let ?w = "\<lparr>cache = [''k'' \<mapsto> (1, JObj 0)], user = [Factory (JObj 0)]\<rparr>"
  have h1: "''development'' \<noteq> ''production''" by simp
  have h2: "True" by simp
  have h3: "cache ?w ''k'' = Some (1, JObj 0)" by simp
  have h4: "truthy (JObj 0)" by simp
  from hot_reload_recreates [OF h1 h2 h3 h4, of recording_genCache "recording_onCacheRemove ''k''"]
  have "watch_callback ''development'' True recording_genCache (recording_onCacheRemove ''k'') ''k'' None ?w
      = Inr (JObj 2, \<lparr>cache = [''k'' \<mapsto> (2, JObj 2)],
                      user = [Factory (JObj 0), Disposal (JObj 0) True (Some (1, JObj 0)), Factory (JObj 2)]\<rparr>)"
    by (simp add: numeral_2_eq_2 call_onCacheRemove_def recording_onCacheRemove_def
        recording_genCache_def Entity_get_def path_of_def)
  with h1 h3 h4 show ?thesis by simp
qed

section \<open>Claims about ThemeCache\<close>

text \<open>
  C6. Take any instance after any run of operations from a fresh one, \<open>t2\<close>, and any state
  \<open>t1\<close> it went through before. Every stamp on a leaf of \<open>t1\<close> is below the access counter of
  \<open>t2\<close>, and no two leaves of \<open>t2\<close> carry the same stamp. A \<open>get\<close> of a sequence that has a
  leaf stamps that leaf with the counter of \<open>t2\<close> and adds 1 to the counter; so does a \<open>set\<close>
  of a non-empty sequence that returns. The new stamp is therefore above every stamp
  issued before, and stamps order the leaves by recency. \<open>has\<close> leaves the whole instance
  (every stamp, and the counter) as it was.
\<close>

theorem touch_stamps_strictly_increase:
  "(let t1 = run S F ops1 new_ThemeCache; t2 = run S F ops2 t1 in
     (\<forall>s \<in> set (stamps_of (tcache t1)). s < cacheCallTimes t2)
   \<and> distinct (stamps_of (tcache t2))
   \<and> (\<forall>v old. fst (internalGet ds False t2) = Some (v, old) \<longrightarrow>
         fst (internalGet ds False (snd (ThemeCache_get ds t2))) = Some (v, cacheCallTimes t2)
       \<and> cacheCallTimes (snd (ThemeCache_get ds t2)) = cacheCallTimes t2 + 1)
   \<and> (\<forall>t3. ds \<noteq> [] \<and> ThemeCache_set S F ds w t2 = Returns () t3 \<longrightarrow>
         fst (internalGet ds False t3) = Some (w, cacheCallTimes t2)
       \<and> cacheCallTimes t3 = cacheCallTimes t2 + 1)
   \<and> ThemeCache_has ds t2 = (fst (ThemeCache_has ds t2), t2))"
proof -
  let ?t1 = "run S F ops1 new_ThemeCache"
  let ?t2 = "run S F ops2 ?t1"
  have inv1: "stamps_inv ?t1" by (rule run_inv [OF stamps_inv_new])
  then have inv2: "stamps_inv ?t2" by (rule run_inv)
  have mono: "cacheCallTimes ?t1 \<le> cacheCallTimes ?t2" by (rule run_counter)
  have a: "s < cacheCallTimes ?t2" if "s \<in> set (stamps_of (tcache ?t1))" for s
    using stamps_inv_bound [OF inv1 that] mono by simp
  have b: "distinct (stamps_of (tcache ?t2))" using inv2 by (rule stamps_inv_distinct)
  have c: "fst (internalGet ds False (snd (ThemeCache_get ds ?t2))) = Some (v, cacheCallTimes ?t2)
       \<and> cacheCallTimes (snd (ThemeCache_get ds ?t2)) = cacheCallTimes ?t2 + 1"
    if "fst (internalGet ds False ?t2) = Some (v, old)" for v old
    using get_restamps [OF that] by simp
  have d: "fst (internalGet ds False t3) = Some (w, cacheCallTimes ?t2)
       \<and> cacheCallTimes t3 = cacheCallTimes ?t2 + 1"
    if "ds \<noteq> [] \<and> ThemeCache_set S F ds w ?t2 = Returns () t3" for t3
    using set_stamps_leaf [of S F ds w ?t2 "()" t3] that by simp
  have e: "ThemeCache_has ds ?t2 = (fst (ThemeCache_has ds ?t2), ?t2)"
    using ThemeCache_has_state [of ds ?t2] by (cases "ThemeCache_has ds ?t2") simp
  from a b c d e show ?thesis unfolding Let_def by blast
qed

theorem touch_stamps_strictly_increase_witness:
  "(1::nat) \<in> set (stamps_of (tcache (run 20 5 [Set [1::nat] (10::nat), Set [2] 20] new_ThemeCache)))
   \<and> 1 < cacheCallTimes (run 20 5 [Get [1]] (run 20 5 [Set [1::nat] (10::nat), Set [2] 20] new_ThemeCache))
   \<and> fst (internalGet [2] False (run 20 5 [Get [1]] (run 20 5 [Set [1::nat] (10::nat), Set [2] 20] new_ThemeCache)))
       = Some (20, 1)
   \<and> fst (internalGet [2] False
        (snd (ThemeCache_get [2] (run 20 5 [Get [1]] (run 20 5 [Set [1::nat] (10::nat), Set [2] 20] new_ThemeCache)))))
       = Some (20, 3)
   \<and> [2::nat] \<noteq> []
   \<and> ThemeCache_set 20 5 [2] 30 (run 20 5 [Get [1]] (run 20 5 [Set [1::nat] (10::nat), Set [2] 20] new_ThemeCache))
       = Returns () \<lparr>tcache = [(1, Node None (Some (10, 2))), (2, Node None (Some (30, 3)))],
                     keys = [[1], [2]], cacheCallTimes = 4\<rparr>
   \<and> fst (internalGet [2] False
        \<lparr>tcache = [(1, Node None (Some (10, 2))), (2, Node None (Some (30::nat, 3)))],
         keys = [[1::nat], [2]], cacheCallTimes = 4\<rparr>) = Some (30, 3)"
proof -
  let ?t1 = "run 20 5 [Set [1::nat] (10::nat), Set [2] 20] new_ThemeCache"
  let ?t2 = "run 20 5 [Get [1]] ?t1"
  let ?t3 = "\<lparr>tcache = [(1::nat, Node None (Some (10::nat, 2))), (2, Node None (Some (30, 3)))],
              keys = [[1], [2]], cacheCallTimes = 4\<rparr>"
  note th = touch_stamps_strictly_increase [of 20 5 "[Set [1::nat] (10::nat), Set [2] 20]" "[Get [1]]" "[2]" 30,
      unfolded Let_def]
  have h1: "(1::nat) \<in> set (stamps_of (tcache ?t1))" by code_simp
  have h2: "fst (internalGet [2] False ?t2) = Some (20, 1)" by code_simp
  have h3: "[2::nat] \<noteq> [] \<and> ThemeCache_set 20 5 [2] 30 ?t2 = Returns () ?t3" by code_simp
  have c2: "cacheCallTimes ?t2 = 3" by code_simp
  from th h1 have g1: "1 < cacheCallTimes ?t2" by blast
  from th h2 have "fst (internalGet [2] False (snd (ThemeCache_get [2] ?t2))) = Some (20, cacheCallTimes ?t2)"
    by blast
  with c2 have g2: "fst (internalGet [2] False (snd (ThemeCache_get [2] ?t2))) = Some (20, 3)"
    by simp
  from th h3 have "fst (internalGet [2] False ?t3) = Some (30, cacheCallTimes ?t2)"
    by blast
  with c2 have g3: "fst (internalGet [2] False ?t3) = Some (30, 3)" by simp
  from h1 g1 h2 g2 h3 g3 show ?thesis by blast
qed

text \<open>
  C1 does not hold of the code. \<open>set\<close> replaces the node at the end of the path by
  \<open>{ value: ... }\<close> and so drops the children that node had: after \<open>set([1, 2], 10)\<close> and
  \<open>set([1], 11)\<close> the registry holds two sequences and the trie one leaf.
\<close>

theorem registry_size_differs_from_leaves:
  "run 20 5 [Set [1::nat, 2] (10::nat), Set [1] 11] new_ThemeCache
     = \<lparr>tcache = [(1, Node None (Some (11, 1)))], keys = [[1, 2], [1]], cacheCallTimes = 2\<rparr>
   \<and> ThemeCache_size (run 20 5 [Set [1::nat, 2] (10::nat), Set [1] 11] new_ThemeCache) = 2
   \<and> leaves_of (tcache (run 20 5 [Set [1::nat, 2] (10::nat), Set [1] 11] new_ThemeCache)) = 1"
  by code_simp

text \<open>
  C3 does not hold of the code, for the defect of C1. With \<open>MAX_CACHE_SIZE = 2\<close> and
  \<open>MAX_CACHE_OFFSET = 1\<close>, after \<open>set([1, 2], 10)\<close>, \<open>set([1], 11)\<close> and \<open>set([3], 12)\<close> the
  registry holds three sequences, the first with no leaf. \<open>set([4], 13)\<close> is then a set of a
  new sequence at the ceiling; it does not evict and insert, it throws in the scan at
  \<open>this.internalGet(key)![1]\<close> and leaves the instance as it was. The same happens at the
  default ceiling of 25 on the 26th of 26 distinct sequences.
\<close>

theorem eviction_throws_after_overwritten_prefix:
  "run 2 1 [Set [1::nat, 2] (10::nat), Set [1] 11, Set [3] 12] new_ThemeCache
     = \<lparr>tcache = [(1, Node None (Some (11, 1))), (3, Node None (Some (12, 2)))],
        keys = [[1, 2], [1], [3]], cacheCallTimes = 3\<rparr>
   \<and> ThemeCache_set 2 1 [4] 13
        (run 2 1 [Set [1::nat, 2] (10::nat), Set [1] 11, Set [3] 12] new_ThemeCache)
     = Throws TypeError
        (run 2 1 [Set [1::nat, 2] (10::nat), Set [1] 11, Set [3] 12] new_ThemeCache)
   \<and> ThemeCache_size
        (run 20 5 ([Set [1::nat, 2] (0::nat), Set [1] 0] @ map (\<lambda>n. Set [n] 0) [3..<26]) new_ThemeCache)
     = 25
   \<and> ThemeCache_set 20 5 [26] 0
        (run 20 5 ([Set [1::nat, 2] (0::nat), Set [1] 0] @ map (\<lambda>n. Set [n] 0) [3..<26]) new_ThemeCache)
     = Throws TypeError
        (run 20 5 ([Set [1::nat, 2] (0::nat), Set [1] 0] @ map (\<lambda>n. Set [n] 0) [3..<26]) new_ThemeCache)"
  by code_simp

text \<open>
  C5 does not hold of the code. \<open>deleteByPath\<close> at the end of a path keeps the node whenever
  it has a \<open>map\<close>, also an empty one: after \<open>set([1], 10)\<close>, \<open>set([1, 2], 11)\<close>,
  \<open>delete([1, 2])\<close> and \<open>delete([1])\<close> the trie still holds the node of \<open>1\<close>, with an empty map
  and no value.
\<close>

theorem delete_leaves_empty_node:
  "tcache (run 20 5 [Set [1::nat] (10::nat), Set [1, 2] 11, Delete [1, 2], Delete [1]] new_ThemeCache)
     = [(1, Node (Some []) None)]
   \<and> has_empty_node_in
        (tcache (run 20 5 [Set [1::nat] (10::nat), Set [1, 2] 11, Delete [1, 2], Delete [1]] new_ThemeCache))"
  by code_simp

section \<open>ThemeCache where the registry and the trie agree\<close>

text \<open>
  The scenario of the class's own comment. With \<open>MAX_CACHE_SIZE = 2\<close> and
  \<open>MAX_CACHE_OFFSET = 1\<close>, \<open>set\<close> of \<open>[1]\<close>, \<open>[2]\<close>, \<open>[3]\<close> gives size 3; \<open>set\<close> of \<open>[4]\<close> then evicts
  \<open>[1]\<close> and leaves \<open>[2]\<close>, \<open>[3]\<close>, \<open>[4]\<close> with size 3. With a \<open>get\<close> of \<open>[1]\<close> before the \<open>set\<close> of \<open>[4]\<close>,
  it is \<open>[2]\<close> that is evicted.
\<close>

theorem eviction_scenario:
  "ThemeCache_size (run 2 1 [Set [1::nat] (10::nat), Set [2] 20, Set [3] 30] new_ThemeCache) = 3
   \<and> run 2 1 [Set [1::nat] (10::nat), Set [2] 20, Set [3] 30, Set [4] 40] new_ThemeCache
     = \<lparr>tcache = [(2, Node None (Some (20, 1))), (3, Node None (Some (30, 2))),
                  (4, Node None (Some (40, 3)))],
        keys = [[2], [3], [4]], cacheCallTimes = 4\<rparr>
   \<and> run 2 1 [Set [1::nat] (10::nat), Set [2] 20, Set [3] 30, Get [1], Set [4] 40] new_ThemeCache
     = \<lparr>tcache = [(1, Node None (Some (10, 3))), (3, Node None (Some (30, 2))),
                  (4, Node None (Some (40, 4)))],
        keys = [[1], [3], [4]], cacheCallTimes = 5\<rparr>"
  by code_simp

text \<open>
  Deleting the only leaf of a fresh instance, whatever the length of its path, leaves an
  empty trie and an empty registry: every node on the path is pruned.
\<close>

theorem delete_sole_leaf_prunes_path:
  assumes "ds \<noteq> []" and "1 \<le> S + F"
  shows "run S F [Set ds v, Delete ds] new_ThemeCache = \<lparr>tcache = [], keys = [], cacheCallTimes = 1\<rparr>"
proof -
  let ?t1 = "\<lparr>tcache = write_path [] ds v 0, keys = [ds], cacheCallTimes = 1\<rparr>"
  have no: "\<not> fst (ThemeCache_has ds new_ThemeCache)"
    using assms(1)
    by (cases ds) (simp_all add: ThemeCache_has_def internalGet_def new_ThemeCache_def walk_Cons)
  with assms have set: "ThemeCache_set S F ds v new_ThemeCache = Returns () ?t1"
    by (simp add: ThemeCache_set_def ThemeCache_size_def new_ThemeCache_def)
  have "walk (write_path [] ds v 0) ds = Some (Node None (Some (v, 0)))"
    using assms(1) by (rule walk_write_path)
  then have yes: "fst (ThemeCache_has ds ?t1)"
    by (simp add: ThemeCache_has_def internalGet_def)
  have "deleteByPath (write_path [] ds v 0) ds = Inr ([], Some v)"
    using assms(1) by (rule deleteByPath_write_path_fresh)
  with yes have "ThemeCache_delete ds ?t1 = Returns (Some v) \<lparr>tcache = [], keys = [], cacheCallTimes = 1\<rparr>"
    by (simp add: ThemeCache_delete_def sameDerivativeOption_iff del: sameDerivativeOption.simps)
  with set show ?thesis by simp
qed

theorem delete_sole_leaf_prunes_path_witness:
  "[1::nat, 2, 3] \<noteq> [] \<and> (1::int) \<le> 20 + 5
   \<and> run 20 5 [Set [1::nat, 2, 3] (10::nat), Delete [1, 2, 3]] new_ThemeCache
     = \<lparr>tcache = [], keys = [], cacheCallTimes = 1\<rparr>"
proof -
  have h1: "[1::nat, 2, 3] \<noteq> []" by simp
  have h2: "(1::int) \<le> 20 + 5" by simp
  from h1 h2 delete_sole_leaf_prunes_path [OF h1 h2, of "10::nat"] show ?thesis by blast
qed

text \<open>
  A \<open>set\<close> of a sequence that was just set writes the new value over the old one: the size
  is unchanged and \<open>get\<close> returns the new value.
\<close>

theorem set_again_overwrites:
  assumes "ds \<noteq> []" and "ThemeCache_set S F ds v1 t = Returns () t1"
  shows "\<exists>t2. ThemeCache_set S F ds v2 t1 = Returns () t2
            \<and> ThemeCache_size t2 = ThemeCache_size t1
            \<and> fst (ThemeCache_get ds t2) = Some v2"
proof -
  let ?t2 = "t1\<lparr>tcache := write_path (tcache t1) ds v2 (cacheCallTimes t1),
                cacheCallTimes := cacheCallTimes t1 + 1\<rparr>"
  from set_stamps_leaf [OF assms(2) assms(1)] have "fst (ThemeCache_has ds t1)"
    by (simp add: ThemeCache_has_iff)
  with assms(1) have set2: "ThemeCache_set S F ds v2 t1 = Returns () ?t2"
    by (simp add: ThemeCache_set_def)
  from set_stamps_leaf [OF set2 assms(1)]
  have "fst (internalGet ds False ?t2) = Some (v2, cacheCallTimes t1)" by (rule conjunct1)
  then have "fst (ThemeCache_get ds ?t2) = Some v2"
    by (rule get_restamps [THEN conjunct2, THEN conjunct1])
  with set2 show ?thesis by (simp add: ThemeCache_size_def)
qed

theorem set_again_overwrites_witness:
  "[1::nat, 2] \<noteq> []
   \<and> ThemeCache_set 20 5 [1::nat, 2] (10::nat) new_ThemeCache
       = Returns () \<lparr>tcache = [(1, Node (Some [(2, Node None (Some (10, 0)))]) None)],
                     keys = [[1, 2]], cacheCallTimes = 1\<rparr>
   \<and> (\<exists>t2. ThemeCache_set 20 5 [1::nat, 2] (11::nat)
               \<lparr>tcache = [(1, Node (Some [(2, Node None (Some (10, 0)))]) None)],
                keys = [[1, 2]], cacheCallTimes = 1\<rparr> = Returns () t2
          \<and> ThemeCache_size t2 = 1
          \<and> fst (ThemeCache_get [1, 2] t2) = Some 11)"
proof -
  let ?t1 = "\<lparr>tcache = [(1::nat, Node (Some [(2, Node None (Some (10::nat, 0)))]) None)],
               keys = [[1, 2]], cacheCallTimes = 1\<rparr>"
  have h1: "[1::nat, 2] \<noteq> []" by simp
  have h2: "ThemeCache_set 20 5 [1::nat, 2] (10::nat) new_ThemeCache = Returns () ?t1" by code_simp
  have s: "ThemeCache_size ?t1 = 1" by code_simp
  from set_again_overwrites [OF h1 h2, of 11] s h1 h2 show ?thesis by simp
qed

text \<open>
  With a ceiling \<open>MAX_CACHE_SIZE + MAX_CACHE_OFFSET\<close> that is not negative, the size of an
  instance never exceeds the ceiling, after any run of operations from a fresh instance
  (25 with the default limits).
\<close>

theorem size_within_ceiling:
  "0 \<le> S + F \<Longrightarrow> int (ThemeCache_size (run S F xs new_ThemeCache)) \<le> S + F"
  by (rule run_size) (simp add: ThemeCache_size_def new_ThemeCache_def)

theorem size_within_ceiling_witness:
  "(0::int) \<le> 2 + 1
   \<and> int (ThemeCache_size (run 2 1 [Set [1::nat] (10::nat), Set [2] 20, Set [3] 30, Set [4] 40, Set [5] 50]
        new_ThemeCache)) \<le> 2 + 1
   \<and> ThemeCache_size (run 2 1 [Set [1::nat] (10::nat), Set [2] 20, Set [3] 30, Set [4] 40, Set [5] 50]
        new_ThemeCache) = 3"
proof -
  have h: "(0::int) \<le> 2 + 1" by simp
  have "ThemeCache_size (run 2 1 [Set [1::nat] (10::nat), Set [2] 20, Set [3] 30, Set [4] 40, Set [5] 50]
        new_ThemeCache) = 3" by code_simp
  with h size_within_ceiling [OF h, of "[Set [1::nat] (10::nat), Set [2] 20, Set [3] 30, Set [4] 40, Set [5] 50]"]
  show ?thesis by blast
qed

text \<open>
  The eviction of \<open>set\<close>, in an instance whose registry is not empty and in which every
  registered sequence has a leaf stamped below the access counter. A \<open>set\<close> of a sequence
  that has no leaf evicts exactly when the size plus 1 exceeds the ceiling. It then deletes
  the first registered sequence of least stamp (every sequence before it in the registry
  has a greater stamp, every one after it a stamp at least as great), and only then
  registers the new sequence and writes its leaf. Below the ceiling it deletes nothing.
\<close>

theorem set_evicts_first_least_stamped:
  assumes "\<not> fst (ThemeCache_has ds t)"
  shows "(int (ThemeCache_size t) + 1 \<le> S + F \<longrightarrow>
           ThemeCache_set S F ds v t =
             Returns () \<lparr>tcache = write_path (tcache t) ds v (cacheCallTimes t),
                         keys = keys t @ [ds],
                         cacheCallTimes = (if ds = [] then cacheCallTimes t else cacheCallTimes t + 1)\<rparr>)
       \<and> (S + F < int (ThemeCache_size t) + 1 \<and> keys t \<noteq> []
            \<and> (\<forall>k \<in> set (keys t). \<exists>s. leaf_stamp t k = Some s \<and> s < cacheCallTimes t) \<longrightarrow>
           (\<exists>pre k post c m r.
              keys t = pre @ k # post \<and> leaf_stamp t k = Some c
            \<and> (\<forall>k' \<in> set pre. \<exists>s. leaf_stamp t k' = Some s \<and> c < s)
            \<and> (\<forall>k' \<in> set post. \<exists>s. leaf_stamp t k' = Some s \<and> c \<le> s)
            \<and> ThemeCache_delete k t =
                Returns r (t\<lparr>keys := filter (\<lambda>item. item \<noteq> k) (keys t), tcache := m\<rparr>)
            \<and> ThemeCache_set S F ds v t =
                Returns () \<lparr>tcache = write_path m ds v (cacheCallTimes t),
                            keys = filter (\<lambda>item. item \<noteq> k) (keys t) @ [ds],
                            cacheCallTimes = (if ds = [] then cacheCallTimes t else cacheCallTimes t + 1)\<rparr>))"
proof (intro conjI impI)
  assume "int (ThemeCache_size t) + 1 \<le> S + F"
  with assms show "ThemeCache_set S F ds v t =
             Returns () \<lparr>tcache = write_path (tcache t) ds v (cacheCallTimes t),
                         keys = keys t @ [ds],
                         cacheCallTimes = (if ds = [] then cacheCallTimes t else cacheCallTimes t + 1)\<rparr>"
    by (simp add: ThemeCache_set_def)
next
  assume a: "S + F < int (ThemeCache_size t) + 1 \<and> keys t \<noteq> []
            \<and> (\<forall>k \<in> set (keys t). \<exists>s. leaf_stamp t k = Some s \<and> s < cacheCallTimes t)"
  then obtain k0 ks where keys: "keys t = k0 # ks" by (cases "keys t") auto
  from a have wf: "\<forall>k \<in> set (keys t). \<exists>s. leaf_stamp t k = Some s \<and> s < cacheCallTimes t"
    by simp
  then have all: "\<forall>k \<in> set (keys t). \<exists>s. leaf_stamp t k = Some s" by blast
  from eviction_scan_first_least [OF all, of "Some k0" "cacheCallTimes t"] obtain tk' c where
    scan: "eviction_scan t (keys t) (Some k0, cacheCallTimes t) = Inr (tk', c)" and
    least: "\<forall>k \<in> set (keys t). \<exists>s. leaf_stamp t k = Some s \<and> c \<le> s" and
    which: "(tk' = Some k0 \<and> c = cacheCallTimes t)
        \<or> (\<exists>pre k post. keys t = pre @ k # post \<and> tk' = Some k \<and> leaf_stamp t k = Some c
              \<and> c < cacheCallTimes t
              \<and> (\<forall>k' \<in> set pre. \<exists>s. leaf_stamp t k' = Some s \<and> c < s))"
    by blast
  from wf keys obtain s0 where "leaf_stamp t k0 = Some s0" "s0 < cacheCallTimes t" by auto
  moreover from least keys obtain s0' where "leaf_stamp t k0 = Some s0'" "c \<le> s0'" by auto
  ultimately have "c \<noteq> cacheCallTimes t" by auto
  with which obtain pre k post where
    split: "keys t = pre @ k # post" and tk': "tk' = Some k" and stamp: "leaf_stamp t k = Some c" and
    before: "\<forall>k' \<in> set pre. \<exists>s. leaf_stamp t k' = Some s \<and> c < s"
    by blast
  from least split have after: "\<forall>k' \<in> set post. \<exists>s. leaf_stamp t k' = Some s \<and> c \<le> s" by simp
  from stamp have "fst (ThemeCache_has k t)" by (simp add: has_leaf_stamp)
  from ThemeCache_delete_of_leaf [OF this] obtain m r where
    del: "ThemeCache_delete k t = Returns r (t\<lparr>keys := filter (\<lambda>item. item \<noteq> k) (keys t), tcache := m\<rparr>)"
    by blast
  from scan tk' del keys have "evict t = Returns () (t\<lparr>keys := filter (\<lambda>item. item \<noteq> k) (keys t), tcache := m\<rparr>)"
    by (simp add: evict_def)
  with assms a have "ThemeCache_set S F ds v t =
        Returns () \<lparr>tcache = write_path m ds v (cacheCallTimes t),
                    keys = filter (\<lambda>item. item \<noteq> k) (keys t) @ [ds],
                    cacheCallTimes = (if ds = [] then cacheCallTimes t else cacheCallTimes t + 1)\<rparr>"
    by (simp add: ThemeCache_set_def)
  with split stamp before after del
  show "\<exists>pre k post c m r.
              keys t = pre @ k # post \<and> leaf_stamp t k = Some c
            \<and> (\<forall>k' \<in> set pre. \<exists>s. leaf_stamp t k' = Some s \<and> c < s)
            \<and> (\<forall>k' \<in> set post. \<exists>s. leaf_stamp t k' = Some s \<and> c \<le> s)
            \<and> ThemeCache_delete k t =
                Returns r (t\<lparr>keys := filter (\<lambda>item. item \<noteq> k) (keys t), tcache := m\<rparr>)
            \<and> ThemeCache_set S F ds v t =
                Returns () \<lparr>tcache = write_path m ds v (cacheCallTimes t),
                            keys = filter (\<lambda>item. item \<noteq> k) (keys t) @ [ds],
                            cacheCallTimes = (if ds = [] then cacheCallTimes t else cacheCallTimes t + 1)\<rparr>"
    by blast
qed

theorem set_evicts_first_least_stamped_witness:
  "\<not> fst (ThemeCache_has [4] (run 2 1 [Set [1::nat] (10::nat), Set [2] 20, Set [3] 30, Get [1]] new_ThemeCache))
   \<and> (2::int) + 1 < int (ThemeCache_size (run 2 1 [Set [1::nat] (10::nat), Set [2] 20, Set [3] 30, Get [1]] new_ThemeCache)) + 1
   \<and> keys (run 2 1 [Set [1::nat] (10::nat), Set [2] 20, Set [3] 30, Get [1]] new_ThemeCache) = [[1], [2], [3]]
   \<and> cacheCallTimes (run 2 1 [Set [1::nat] (10::nat), Set [2] 20, Set [3] 30, Get [1]] new_ThemeCache) = 4
   \<and> map (leaf_stamp (run 2 1 [Set [1::nat] (10::nat), Set [2] 20, Set [3] 30, Get [1]] new_ThemeCache))
        [[1], [2], [3]] = [Some 3, Some 1, Some 2]
   \<and> (\<exists>pre k post c m.
         [[1], [2], [3]] = pre @ k # post
       \<and> leaf_stamp (run 2 1 [Set [1::nat] (10::nat), Set [2] 20, Set [3] 30, Get [1]] new_ThemeCache) k = Some c
       \<and> ThemeCache_set 2 1 [4] 40 (run 2 1 [Set [1::nat] (10::nat), Set [2] 20, Set [3] 30, Get [1]] new_ThemeCache)
           = Returns () \<lparr>tcache = write_path m [4] 40 4,
                          keys = filter (\<lambda>item. item \<noteq> k) [[1], [2], [3]] @ [[4]],
                          cacheCallTimes = 5\<rparr>)
   \<and> ThemeCache_set 2 1 [4] 40 (run 2 1 [Set [1::nat] (10::nat), Set [2] 20, Set [3] 30, Get [1]] new_ThemeCache)
       = Returns () \<lparr>tcache = [(1, Node None (Some (10, 3))), (3, Node None (Some (30, 2))),
                                (4, Node None (Some (40, 4)))],
                      keys = [[1], [3], [4]], cacheCallTimes = 5\<rparr>"
proof -
  define t where "t = run 2 1 [Set [1::nat] (10::nat), Set [2] 20, Set [3] 30, Get [1]] new_ThemeCache"
  have h1: "\<not> fst (ThemeCache_has [4] t)" unfolding t_def by code_simp
  have h2: "(2::int) + 1 < int (ThemeCache_size t) + 1" unfolding t_def by code_simp
  have kt: "keys t = [[1], [2], [3]]" unfolding t_def by code_simp
  have ct: "cacheCallTimes t = 4" unfolding t_def by code_simp
  have ls: "map (leaf_stamp t) [[1], [2], [3]] = [Some 3, Some 1, Some 2]"
    unfolding t_def by code_simp
  have h3: "keys t \<noteq> []" by (simp add: kt)
  have h4: "\<forall>k \<in> set (keys t). \<exists>s. leaf_stamp t k = Some s \<and> s < cacheCallTimes t"
    using ls by (simp add: kt ct)
  from set_evicts_first_least_stamped [OF h1, of 2 1 40] h2 h3 h4
  obtain pre k post c m r where
    "keys t = pre @ k # post" "leaf_stamp t k = Some c"
    "ThemeCache_set 2 1 [4] 40 t =
       Returns () \<lparr>tcache = write_path m [4] 40 (cacheCallTimes t),
                   keys = filter (\<lambda>item. item \<noteq> k) (keys t) @ [[4]],
                   cacheCallTimes = (if [4::nat] = [] then cacheCallTimes t else cacheCallTimes t + 1)\<rparr>"
    by blast
  then have ex: "\<exists>pre k post c m.
         [[1], [2], [3]] = pre @ k # post
       \<and> leaf_stamp t k = Some c
       \<and> ThemeCache_set 2 1 [4] 40 t
           = Returns () \<lparr>tcache = write_path m [4] 40 4,
                          keys = filter (\<lambda>item. item \<noteq> k) [[1], [2], [3]] @ [[4]],
                          cacheCallTimes = 5\<rparr>"
    unfolding kt ct by auto
  have ev: "ThemeCache_set 2 1 [4] 40 t
       = Returns () \<lparr>tcache = [(1, Node None (Some (10, 3))), (3, Node None (Some (30, 2))),
                                (4, Node None (Some (40, 4)))],
                      keys = [[1], [3], [4]], cacheCallTimes = 5\<rparr>"
    unfolding t_def by code_simp
  from h1 h2 kt ct ls ex ev show ?thesis unfolding t_def by (intro conjI)
qed

end
